theory Spec2Isabelle
  imports Main "HOL-Library.List_Lexorder" "HOL-Library.RBT_Set"
begin

section \<open>The grid scanner of RMSTest.py\<close>

text \<open>
  The source holds two functions over a grid of Python integers (a sequence of rows):
  \<^verbatim>\<open>find_greatest_product_of_contiguous_integers\<close> and
  \<^verbatim>\<open>count_unique_combinations_of_length_k\<close>. Python integers are unbounded, so
  cell values, the run length, the lengths and all coordinates are \<^typ>\<open>int\<close>.
  An exception is a value of type \<open>error\<close> on the left of a sum.
\<close>

subsection \<open>Data and primitive operations\<close>

type_synonym NumberGrid = "int list list"

datatype error = ValueError | IndexError

text \<open>Subscription \<^verbatim>\<open>xs[i]\<close> of a Python sequence of length \<open>n\<close>: an index from
  \<open>0\<close> to \<open>n - 1\<close> reads that element, an index from \<open>- n\<close> to \<open>- 1\<close> reads
  the element \<open>n + i\<close>, and every other index raises IndexError.\<close>

definition py_index :: "'a list \<Rightarrow> int \<Rightarrow> error + 'a" where
  "py_index xs i =
     (if 0 \<le> i \<and> i < int (length xs) then Inr (xs ! nat i)
      else if - int (length xs) \<le> i \<and> i < 0 then Inr (xs ! nat (int (length xs) + i))
      else Inl IndexError)"

text \<open>\<^verbatim>\<open>grid[rr][cc]\<close>: the row is fetched first, then the cell.\<close>

definition cell :: "NumberGrid \<Rightarrow> int \<Rightarrow> int \<Rightarrow> error + int" where
  "cell grid rr cc =
     (case py_index grid rr of Inl e \<Rightarrow> Inl e | Inr row \<Rightarrow> py_index row cc)"

text \<open>\<^verbatim>\<open>range(k)\<close> for an integer \<open>k\<close>: the integers from 0 up to \<open>k - 1\<close>,
  none when \<open>k \<le> 0\<close>.\<close>

definition py_range :: "int \<Rightarrow> int list" where
  "py_range k = map int [0..<nat k]"

text \<open>The local list \<^verbatim>\<open>directions\<close> of both functions: right, down, down-right,
  down-left.\<close>

definition directions :: "(int \<times> int) list" where
  "directions = [(0, 1), (1, 0), (1, 1), (1, -1)]"

text \<open>The three nested \<^verbatim>\<open>for\<close> loops visit, in this order, every row index, every
  column index and every direction.\<close>

definition iteration_space :: "int \<Rightarrow> int \<Rightarrow> (int \<times> int) list \<Rightarrow> (int \<times> int \<times> int \<times> int) list" where
  "iteration_space row_count col_count dirs =
     concat (map (\<lambda>r. concat (map (\<lambda>c. map (\<lambda>(dr, dc). (r, c, dr, dc)) dirs)
       (py_range col_count))) (py_range row_count))"

text \<open>A loop whose body may raise: the first error ends the loop.\<close>

fun fold_err :: "('a \<Rightarrow> 's \<Rightarrow> error + 's) \<Rightarrow> 'a list \<Rightarrow> 's \<Rightarrow> error + 's" where
  "fold_err f [] s = Inr s"
| "fold_err f (x # xs) s =
     (case f x s of Inl e \<Rightarrow> Inl e | Inr s' \<Rightarrow> fold_err f xs s')"

subsection \<open>The product search\<close>

text \<open>The innermost loop \<^verbatim>\<open>for i in range(k): product *= grid[rr][cc]\<close>.\<close>

fun product_loop :: "NumberGrid \<Rightarrow> int \<Rightarrow> int \<Rightarrow> int \<Rightarrow> int \<Rightarrow> int list \<Rightarrow> int \<Rightarrow> error + int" where
  "product_loop grid r c dr dc [] product = Inr product"
| "product_loop grid r c dr dc (i # is) product =
     (case cell grid (r + i * dr) (c + i * dc) of
        Inl e \<Rightarrow> Inl e
      | Inr v \<Rightarrow> product_loop grid r c dr dc is (product * v))"

text \<open>\<^verbatim>\<open>if max_product is None or product > max_product: max_product = product\<close>\<close>

definition update_max :: "int \<Rightarrow> int option \<Rightarrow> int option" where
  "update_max product max_product =
     (case max_product of
        None \<Rightarrow> Some product
      | Some m \<Rightarrow> if product > m then Some product else Some m)"

text \<open>The body of the three loops, for one start cell and one direction.\<close>

fun product_step :: "NumberGrid \<Rightarrow> int \<Rightarrow> int \<Rightarrow> int \<Rightarrow> int \<times> int \<times> int \<times> int \<Rightarrow> int option \<Rightarrow> error + int option" where
  "product_step grid row_count col_count k (r, c, dr, dc) max_product =
     (let end_r = r + (k - 1) * dr;
          end_c = c + (k - 1) * dc
      in if \<not> (0 \<le> end_r \<and> end_r < row_count \<and> 0 \<le> end_c \<and> end_c < col_count)
         then Inr max_product
         else (case product_loop grid r c dr dc (py_range k) 1 of
                 Inl e \<Rightarrow> Inl e
               | Inr product \<Rightarrow> Inr (update_max product max_product)))"

text \<open>The traversal and the final \<^verbatim>\<open>return\<close>, with the list of directions as a
  parameter; the source calls it with \<open>directions\<close>.\<close>

definition max_product_scan :: "(int \<times> int) list \<Rightarrow> NumberGrid \<Rightarrow> int \<Rightarrow> int \<Rightarrow> int \<Rightarrow> error + int" where
  "max_product_scan dirs grid row_count col_count k =
     (case fold_err (product_step grid row_count col_count k)
             (iteration_space row_count col_count dirs) None of
        Inl e \<Rightarrow> Inl e
      | Inr None \<Rightarrow> Inr 0
      | Inr (Some max_product) \<Rightarrow> Inr max_product)"

definition find_greatest_product_of_contiguous_integers :: "NumberGrid \<Rightarrow> int \<Rightarrow> error + int" where
  "find_greatest_product_of_contiguous_integers grid contiguous_integers =
     (if contiguous_integers < 1 then Inl ValueError
      else if grid = [] then Inl ValueError
      else let row_count = int (length grid);
               col_count = int (length (hd grid))
           in if list_ex (\<lambda>row. int (length row) \<noteq> col_count) grid then Inl ValueError
              else max_product_scan directions grid row_count col_count contiguous_integers)"

subsection \<open>The count of unique runs\<close>

text \<open>The innermost loop \<^verbatim>\<open>for i in range(k): seq.append(grid[rr][cc])\<close>.\<close>

fun seq_loop :: "NumberGrid \<Rightarrow> int \<Rightarrow> int \<Rightarrow> int \<Rightarrow> int \<Rightarrow> int list \<Rightarrow> int list \<Rightarrow> error + int list" where
  "seq_loop grid r c dr dc [] seq = Inr seq"
| "seq_loop grid r c dr dc (i # is) seq =
     (case cell grid (r + i * dr) (c + i * dc) of
        Inl e \<Rightarrow> Inl e
      | Inr v \<Rightarrow> seq_loop grid r c dr dc is (seq @ [v]))"

text \<open>Python's \<^verbatim>\<open><\<close> on tuples of integers: the first position where the two differ
  decides; a proper prefix is smaller.\<close>

fun tuple_less :: "int list \<Rightarrow> int list \<Rightarrow> bool" where
  "tuple_less [] [] = False"
| "tuple_less [] (y # ys) = True"
| "tuple_less (x # xs) [] = False"
| "tuple_less (x # xs) (y # ys) = (if x = y then tuple_less xs ys else x < y)"

text \<open>Python's \<^verbatim>\<open>min(a, b)\<close>: the first argument unless the second is smaller.\<close>

definition py_min :: "int list \<Rightarrow> int list \<Rightarrow> int list" where
  "py_min a b = (if tuple_less b a then b else a)"

definition canonical :: "int list \<Rightarrow> int list" where
  "canonical seq = py_min seq (rev seq)"

fun seen_step :: "NumberGrid \<Rightarrow> int \<Rightarrow> int \<Rightarrow> int \<Rightarrow> int \<times> int \<times> int \<times> int \<Rightarrow> int list set \<Rightarrow> error + int list set" where
  "seen_step grid row_count col_count k (r, c, dr, dc) seen =
     (let end_r = r + (k - 1) * dr;
          end_c = c + (k - 1) * dc
      in if \<not> (0 \<le> end_r \<and> end_r < row_count \<and> 0 \<le> end_c \<and> end_c < col_count)
         then Inr seen
         else (case seq_loop grid r c dr dc (py_range k) [] of
                 Inl e \<Rightarrow> Inl e
               | Inr seq \<Rightarrow> Inr (insert (canonical seq) seen)))"

definition count_unique_combinations_of_length_k :: "NumberGrid \<Rightarrow> int \<Rightarrow> error + nat" where
  "count_unique_combinations_of_length_k grid k =
     (let row_count = int (length grid);
          col_count = (if row_count > 0 then int (length (hd grid)) else 0)
      in case fold_err (seen_step grid row_count col_count k)
                (iteration_space row_count col_count directions) {} of
           Inl e \<Rightarrow> Inl e
         | Inr seen \<Rightarrow> Inr (card seen))"

subsection \<open>Runs, as the specification describes them\<close>

text \<open>Every row is as long as the first one.\<close>

definition rectangular :: "NumberGrid \<Rightarrow> bool" where
  "rectangular G = list_all (\<lambda>row. length row = length (hd G)) G"

definition rows :: "NumberGrid \<Rightarrow> int" where
  "rows G = int (length G)"

definition cols :: "NumberGrid \<Rightarrow> int" where
  "cols G = (if G = [] then 0 else int (length (hd G)))"

text \<open>The value of a cell that lies inside the grid.\<close>

definition grid_at :: "NumberGrid \<Rightarrow> int \<Rightarrow> int \<Rightarrow> int" where
  "grid_at G r c = G ! nat r ! nat c"

text \<open>The four base directions and their reversals (left, up, up-left, up-right).\<close>

definition eight_directions :: "(int \<times> int) list" where
  "eight_directions = [(0, 1), (1, 0), (1, 1), (1, -1), (0, -1), (-1, 0), (-1, -1), (-1, 1)]"

text \<open>A run is a start cell and a direction. It is valid for the length \<open>k\<close> when its
  last cell \<open>(r + (k - 1) * dr, c + (k - 1) * dc)\<close> is inside the grid.\<close>

definition all_runs :: "(int \<times> int) list \<Rightarrow> NumberGrid \<Rightarrow> int \<Rightarrow> (int \<times> int \<times> int \<times> int) list" where
  "all_runs dirs G k =
     [(r, c, dr, dc). r \<leftarrow> [0..rows G - 1], c \<leftarrow> [0..cols G - 1], (dr, dc) \<leftarrow> dirs,
        0 \<le> r + (k - 1) * dr \<and> r + (k - 1) * dr < rows G \<and>
        0 \<le> c + (k - 1) * dc \<and> c + (k - 1) * dc < cols G]"

text \<open>The values of a run: the cells met in \<open>k - 1\<close> steps from the start.\<close>

fun run_values :: "NumberGrid \<Rightarrow> int \<Rightarrow> int \<times> int \<times> int \<times> int \<Rightarrow> int list" where
  "run_values G k (r, c, dr, dc) = map (\<lambda>i. grid_at G (r + i * dr) (c + i * dc)) [0..k - 1]"

definition run_products :: "(int \<times> int) list \<Rightarrow> NumberGrid \<Rightarrow> int \<Rightarrow> int list" where
  "run_products dirs G k = map (\<lambda>x. prod_list (run_values G k x)) (all_runs dirs G k)"

text \<open>The canonical identity of a value sequence: the smaller, in the lexicographic order
  on lists of integers, of the sequence and its reversal.\<close>

definition lex_min_identity :: "int list \<Rightarrow> int list" where
  "lex_min_identity seq = min seq (rev seq)"

definition run_identities :: "(int \<times> int) list \<Rightarrow> NumberGrid \<Rightarrow> int \<Rightarrow> int list set" where
  "run_identities dirs G k = set (map (\<lambda>x. lex_min_identity (run_values G k x)) (all_runs dirs G k))"

text \<open>The two reflections of a grid.\<close>

definition reflect_left_right :: "NumberGrid \<Rightarrow> NumberGrid" where
  "reflect_left_right G = map rev G"

definition reflect_top_bottom :: "NumberGrid \<Rightarrow> NumberGrid" where
  "reflect_top_bottom G = rev G"

text \<open>All cell values of a grid.\<close>

definition cell_values :: "NumberGrid \<Rightarrow> int set" where
  "cell_values G = set (concat G)"

text \<open>Directions whose two components are \<open>-1\<close>, \<open>0\<close> or \<open>1\<close>.\<close>

definition unit_steps :: "(int \<times> int) list \<Rightarrow> bool" where
  "unit_steps dirs = (\<forall>(dr, dc) \<in> set dirs. dr \<in> {-1, 0, 1} \<and> dc \<in> {-1, 0, 1})"

text \<open>The bounds check of both loop bodies, on the last cell of a run.\<close>

fun run_fits :: "NumberGrid \<Rightarrow> int \<Rightarrow> int \<times> int \<times> int \<times> int \<Rightarrow> bool" where
  "run_fits G k (r, c, dr, dc) =
     (0 \<le> r + (k - 1) * dr \<and> r + (k - 1) * dr < rows G \<and>
      0 \<le> c + (k - 1) * dc \<and> c + (k - 1) * dc < cols G)"

text \<open>The same cells walked from the other end: the start is the last cell of the run
  and the direction is negated.\<close>

fun reverse_run :: "int \<Rightarrow> int \<times> int \<times> int \<times> int \<Rightarrow> int \<times> int \<times> int \<times> int" where
  "reverse_run k (r, c, dr, dc) = (r + (k - 1) * dr, c + (k - 1) * dc, - dr, - dc)"

text \<open>The run of the original grid that a run of the reflected grid walks along.\<close>

fun mirror_left_right :: "NumberGrid \<Rightarrow> int \<times> int \<times> int \<times> int \<Rightarrow> int \<times> int \<times> int \<times> int" where
  "mirror_left_right G (r, c, dr, dc) = (r, cols G - 1 - c, dr, - dc)"

fun mirror_top_bottom :: "NumberGrid \<Rightarrow> int \<times> int \<times> int \<times> int \<Rightarrow> int \<times> int \<times> int \<times> int" where
  "mirror_top_bottom G (r, c, dr, dc) = (rows G - 1 - r, c, - dr, dc)"

text \<open>The product search once more, with a log of what it does: an entry for every
  start cell and direction the three loops reach, and an entry for every execution of
  \<^verbatim>\<open>product *= grid[rr][cc]\<close>. The log is threaded through the code as it runs and
  survives an exception.\<close>

datatype event = Visit int int int int | Multiply int int

fun product_loop_logged :: "NumberGrid \<Rightarrow> int \<Rightarrow> int \<Rightarrow> int \<Rightarrow> int \<Rightarrow> int list \<Rightarrow> int \<Rightarrow> event list \<Rightarrow> (error + int) \<times> event list" where
  "product_loop_logged grid r c dr dc [] product log = (Inr product, log)"
| "product_loop_logged grid r c dr dc (i # is) product log =
     (case cell grid (r + i * dr) (c + i * dc) of
        Inl e \<Rightarrow> (Inl e, log)
      | Inr v \<Rightarrow> product_loop_logged grid r c dr dc is (product * v)
                 (log @ [Multiply (r + i * dr) (c + i * dc)]))"

fun product_step_logged :: "NumberGrid \<Rightarrow> int \<Rightarrow> int \<Rightarrow> int \<Rightarrow> int \<times> int \<times> int \<times> int \<Rightarrow> int option \<Rightarrow> event list \<Rightarrow> (error + int option) \<times> event list" where
  "product_step_logged grid row_count col_count k (r, c, dr, dc) max_product log =
     (let end_r = r + (k - 1) * dr;
          end_c = c + (k - 1) * dc;
          log1 = log @ [Visit r c dr dc]
      in if \<not> (0 \<le> end_r \<and> end_r < row_count \<and> 0 \<le> end_c \<and> end_c < col_count)
         then (Inr max_product, log1)
         else (case product_loop_logged grid r c dr dc (py_range k) 1 log1 of
                 (Inl e, log2) \<Rightarrow> (Inl e, log2)
               | (Inr product, log2) \<Rightarrow> (Inr (update_max product max_product), log2)))"

fun fold_logged :: "('a \<Rightarrow> 's \<Rightarrow> event list \<Rightarrow> (error + 's) \<times> event list) \<Rightarrow> 'a list \<Rightarrow> 's \<Rightarrow> event list \<Rightarrow> (error + 's) \<times> event list" where
  "fold_logged f [] s log = (Inr s, log)"
| "fold_logged f (x # xs) s log =
     (case f x s log of
        (Inl e, log') \<Rightarrow> (Inl e, log')
      | (Inr s', log') \<Rightarrow> fold_logged f xs s' log')"

definition max_product_scan_logged :: "(int \<times> int) list \<Rightarrow> NumberGrid \<Rightarrow> int \<Rightarrow> int \<Rightarrow> int \<Rightarrow> event list \<Rightarrow> (error + int) \<times> event list" where
  "max_product_scan_logged dirs grid row_count col_count k log =
     (case fold_logged (product_step_logged grid row_count col_count k)
             (iteration_space row_count col_count dirs) None log of
        (Inl e, log') \<Rightarrow> (Inl e, log')
      | (Inr None, log') \<Rightarrow> (Inr 0, log')
      | (Inr (Some max_product), log') \<Rightarrow> (Inr max_product, log'))"

definition find_greatest_product_logged :: "NumberGrid \<Rightarrow> int \<Rightarrow> (error + int) \<times> event list" where
  "find_greatest_product_logged grid contiguous_integers =
     (if contiguous_integers < 1 then (Inl ValueError, [])
      else if grid = [] then (Inl ValueError, [])
      else let row_count = int (length grid);
               col_count = int (length (hd grid))
           in if list_ex (\<lambda>row. int (length row) \<noteq> col_count) grid then (Inl ValueError, [])
              else max_product_scan_logged directions grid row_count col_count
                     contiguous_integers [])"

text \<open>A run overruns when one of its cells lies past the end of the row it is in.\<close>

fun run_overruns :: "NumberGrid \<Rightarrow> int \<Rightarrow> int \<times> int \<times> int \<times> int \<Rightarrow> bool" where
  "run_overruns G k (r, c, dr, dc) =
     list_ex (\<lambda>i. int (length (G ! nat (r + i * dr))) \<le> c + i * dc) [0..k - 1]"

text \<open>Some run in a base direction that passes the bounds check (rows against the row
  count, columns against the length of the first row) overruns.\<close>

definition reads_past_row_end :: "NumberGrid \<Rightarrow> int \<Rightarrow> bool" where
  "reads_past_row_end G k =
     list_ex (run_overruns G k) (all_runs [(0, 1), (1, 0), (1, 1), (1, -1)] G k)"

subsection \<open>The sample grid of the driver\<close>

definition sample_grid :: NumberGrid where
  "sample_grid =
    [[8, 2, 22, 97, 38, 15, 0, 40, 0, 75],
     [49, 49, 99, 40, 17, 81, 18, 57, 60, 87],
     [81, 49, 31, 73, 55, 79, 14, 29, 93, 71],
     [52, 70, 95, 23, 4, 60, 11, 42, 69, 24],
     [22, 31, 16, 71, 51, 67, 63, 89, 41, 92],
     [24, 47, 32, 60, 99, 3, 45, 2, 44, 75],
     [32, 98, 81, 28, 64, 23, 67, 10, 26, 38],
     [67, 26, 20, 68, 2, 62, 12, 20, 95, 63],
     [24, 55, 58, 5, 66, 73, 99, 26, 97, 17],
     [21, 36, 23, 9, 75, 0, 76, 44, 20, 45]]"

section \<open>Properties\<close>

subsection \<open>Ranges, indexing and the iteration space\<close>

lemma set_py_range: "set (py_range n) = {i. 0 \<le> i \<and> i < n}"
  apply (auto simp: py_range_def image_iff)
  subgoal for x by (rule bexI[of _ "nat x"]) auto
  done

lemma set_iteration_space:
  "set (iteration_space R C dirs) = {(r, c, dr, dc). 0 \<le> r \<and> r < R \<and> 0 \<le> c \<and> c < C \<and> (dr, dc) \<in> set dirs}"
  by (auto simp: iteration_space_def set_py_range)

lemma set_all_runs:
  "set (all_runs dirs G k) = {(r, c, dr, dc). 0 \<le> r \<and> r < rows G \<and> 0 \<le> c \<and> c < cols G \<and> (dr, dc) \<in> set dirs
      \<and> 0 \<le> r + (k - 1) * dr \<and> r + (k - 1) * dr < rows G \<and>
        0 \<le> c + (k - 1) * dc \<and> c + (k - 1) * dc < cols G}"
  by (auto simp: all_runs_def)

lemma map_int_upt: "map int [0..<n] = [0..int n - 1]"
  by (induction n) (simp_all add: upto_rec2)

lemma py_range_upto: "py_range k = [0..k - 1]"
proof (cases "k \<le> 0")
  case True
  then show ?thesis by (simp add: py_range_def)
next
  case False
  then show ?thesis using map_int_upt[of "nat k"] by (simp add: py_range_def)
qed

lemma py_index_in_range: "0 \<le> i \<Longrightarrow> i < int (length xs) \<Longrightarrow> py_index xs i = Inr (xs ! nat i)"
  by (simp add: py_index_def)

lemma rectangular_nth: "rectangular G \<Longrightarrow> i < length G \<Longrightarrow> length (G ! i) = length (hd G)"
  by (simp add: rectangular_def list_all_length)

lemma cell_in_grid:
  assumes "rectangular G" "0 \<le> r" "r < rows G" "0 \<le> c" "c < cols G"
  shows "cell G r c = Inr (grid_at G r c)"
proof -
  have r: "nat r < length G" using assms by (simp add: rows_def)
  then have "G \<noteq> []" by auto
  then have "c < int (length (G ! nat r))"
    using assms rectangular_nth[OF assms(1) r] by (simp add: cols_def)
  then show ?thesis
    using assms r by (simp add: cell_def py_index_in_range rows_def grid_at_def)
qed

lemma step_between:
  fixes r :: int
  assumes "dr \<in> {-1, 0, 1}" "0 \<le> r" "r < R" "0 \<le> r + (k - 1) * dr" "r + (k - 1) * dr < R"
    "0 \<le> i" "i < k"
  shows "0 \<le> r + i * dr \<and> r + i * dr < R"
  using assms by auto

lemma product_loop_ok:
  assumes "\<And>i. i \<in> set js \<Longrightarrow> cell G (r + i * dr) (c + i * dc) = Inr (grid_at G (r + i * dr) (c + i * dc))"
  shows "product_loop G r c dr dc js acc = Inr (acc * prod_list (map (\<lambda>i. grid_at G (r + i * dr) (c + i * dc)) js))"
  using assms by (induction js arbitrary: acc) (simp_all add: mult.assoc)

lemma seq_loop_ok:
  assumes "\<And>i. i \<in> set js \<Longrightarrow> cell G (r + i * dr) (c + i * dc) = Inr (grid_at G (r + i * dr) (c + i * dc))"
  shows "seq_loop G r c dr dc js acc = Inr (acc @ map (\<lambda>i. grid_at G (r + i * dr) (c + i * dc)) js)"
  using assms by (induction js arbitrary: acc) simp_all

lemma run_cells_ok:
  assumes "rectangular G" "0 \<le> r" "r < rows G" "0 \<le> c" "c < cols G"
    "dr \<in> {-1, 0, 1}" "dc \<in> {-1, 0, 1}"
    "0 \<le> r + (k - 1) * dr" "r + (k - 1) * dr < rows G"
    "0 \<le> c + (k - 1) * dc" "c + (k - 1) * dc < cols G"
    "i \<in> set (py_range k)"
  shows "cell G (r + i * dr) (c + i * dc) = Inr (grid_at G (r + i * dr) (c + i * dc))"
proof -
  have i: "0 \<le> i" "i < k" using assms(12) by (simp_all add: set_py_range)
  have "0 \<le> r + i * dr \<and> r + i * dr < rows G"
    using step_between[OF assms(6) assms(2) assms(3) assms(8) assms(9) i] .
  moreover have "0 \<le> c + i * dc \<and> c + i * dc < cols G"
    using step_between[OF assms(7) assms(4) assms(5) assms(10) assms(11) i] .
  ultimately show ?thesis using cell_in_grid[OF assms(1)] by blast
qed

lemma fold_err_pure:
  "(\<And>x s. x \<in> set xs \<Longrightarrow> f x s = Inr (g x s)) \<Longrightarrow> fold_err f xs s = Inr (fold g xs s)"
  by (induction xs arbitrary: s) simp_all

lemma fold_update_max_Some: "fold update_max vs (Some m) = Some (Max (insert m (set vs)))"
proof (induction vs arbitrary: m)
  case Nil
  then show ?case by simp
next
  case (Cons v vs)
  have "update_max v (Some m) = Some (max m v)" by (simp add: update_max_def max_def)
  then have "fold update_max (v # vs) (Some m) = Some (Max (insert (max m v) (set vs)))"
    using Cons.IH by simp
  also have "Max (insert (max m v) (set vs)) = Max (insert m (set (v # vs)))"
    by (cases "vs = []") (simp_all add: max.assoc)
  finally show ?case .
qed

lemma fold_update_max_None:
  "fold update_max vs None = (if vs = [] then None else Some (Max (set vs)))"
  by (cases vs) (simp_all add: update_max_def fold_update_max_Some)

lemma fold_filter_map:
  "fold (\<lambda>x s. if P x then f (p x) s else s) xs s = fold f (map p (filter P xs)) s"
  by (induction xs arbitrary: s) simp_all

lemma set_all_runs_filter:
  "set (all_runs dirs G k) = {x \<in> set (iteration_space (rows G) (cols G) dirs). run_fits G k x}"
  by (auto simp: set_all_runs set_iteration_space)

lemma product_step_ok:
  assumes "rectangular G" "unit_steps dirs" "x \<in> set (iteration_space (rows G) (cols G) dirs)"
  shows "product_step G (rows G) (cols G) k x m =
           Inr (if run_fits G k x then update_max (prod_list (run_values G k x)) m else m)"
proof -
  obtain r c dr dc where x: "x = (r, c, dr, dc)" by (cases x) auto
  have start: "0 \<le> r" "r < rows G" "0 \<le> c" "c < cols G" and d: "(dr, dc) \<in> set dirs"
    using assms(3) by (simp_all add: x set_iteration_space)
  have u: "dr \<in> {-1, 0, 1}" "dc \<in> {-1, 0, 1}"
    using assms(2) d by (auto simp: unit_steps_def)
  show ?thesis
  proof (cases "run_fits G k x")
    case False
    then show ?thesis by (auto simp: x)
  next
    case True
    then have e: "0 \<le> r + (k - 1) * dr" "r + (k - 1) * dr < rows G"
      "0 \<le> c + (k - 1) * dc" "c + (k - 1) * dc < cols G"
      by (simp_all add: x)
    have "product_loop G r c dr dc (py_range k) 1 =
        Inr (1 * prod_list (map (\<lambda>i. grid_at G (r + i * dr) (c + i * dc)) (py_range k)))"
      by (rule product_loop_ok) (rule run_cells_ok[OF assms(1) start u e])
    then show ?thesis using True e by (simp add: x py_range_upto)
  qed
qed

lemma seen_step_ok:
  assumes "rectangular G" "unit_steps dirs" "x \<in> set (iteration_space (rows G) (cols G) dirs)"
  shows "seen_step G (rows G) (cols G) k x S =
           Inr (if run_fits G k x then insert (canonical (run_values G k x)) S else S)"
proof -
  obtain r c dr dc where x: "x = (r, c, dr, dc)" by (cases x) auto
  have start: "0 \<le> r" "r < rows G" "0 \<le> c" "c < cols G" and d: "(dr, dc) \<in> set dirs"
    using assms(3) by (simp_all add: x set_iteration_space)
  have u: "dr \<in> {-1, 0, 1}" "dc \<in> {-1, 0, 1}"
    using assms(2) d by (auto simp: unit_steps_def)
  show ?thesis
  proof (cases "run_fits G k x")
    case False
    then show ?thesis by (auto simp: x)
  next
    case True
    then have e: "0 \<le> r + (k - 1) * dr" "r + (k - 1) * dr < rows G"
      "0 \<le> c + (k - 1) * dc" "c + (k - 1) * dc < cols G"
      by (simp_all add: x)
    have "seq_loop G r c dr dc (py_range k) [] =
        Inr ([] @ map (\<lambda>i. grid_at G (r + i * dr) (c + i * dc)) (py_range k))"
      by (rule seq_loop_ok) (rule run_cells_ok[OF assms(1) start u e])
    then show ?thesis using True e by (simp add: x py_range_upto)
  qed
qed

lemma set_run_products:
  "set (run_products dirs G k) = (\<lambda>x. prod_list (run_values G k x)) ` set (all_runs dirs G k)"
  by (simp add: run_products_def)

lemma max_product_scan_correct:
  assumes "rectangular G" "unit_steps dirs"
  shows "max_product_scan dirs G (rows G) (cols G) k =
           Inr (if all_runs dirs G k = [] then 0 else Max (set (run_products dirs G k)))"
proof -
  let ?xs = "iteration_space (rows G) (cols G) dirs"
  let ?p = "\<lambda>x. prod_list (run_values G k x)"
  let ?vs = "map ?p (filter (run_fits G k) ?xs)"
  have "fold_err (product_step G (rows G) (cols G) k) ?xs None =
      Inr (fold (\<lambda>x m. if run_fits G k x then update_max (?p x) m else m) ?xs None)"
    by (rule fold_err_pure) (rule product_step_ok[OF assms])
  also have "fold (\<lambda>x m. if run_fits G k x then update_max (?p x) m else m) ?xs None =
      fold update_max ?vs None"
    by (rule fold_filter_map)
  also have "\<dots> = (if ?vs = [] then None else Some (Max (set ?vs)))"
    by (rule fold_update_max_None)
  finally have f: "fold_err (product_step G (rows G) (cols G) k) ?xs None =
      Inr (if ?vs = [] then None else Some (Max (set ?vs)))" .
  have s: "set ?vs = set (run_products dirs G k)"
    by (simp add: set_run_products set_all_runs_filter)
  have e: "(?vs = []) = (all_runs dirs G k = [])"
  proof -
    have "(?vs = []) = (set ?vs = {})" by (simp only: set_empty)
    also have "\<dots> = (set (all_runs dirs G k) = {})"
      by (simp add: set_all_runs_filter)
    finally show ?thesis by simp
  qed
  show ?thesis
    unfolding max_product_scan_def f using s e by (simp split: if_splits)
qed

lemma fold_insert_image: "fold (\<lambda>x. insert (q x)) xs S = q ` set xs \<union> S"
  by (induction xs arbitrary: S) auto

lemma seen_scan_correct:
  assumes "rectangular G" "unit_steps dirs"
  shows "fold_err (seen_step G (rows G) (cols G) k) (iteration_space (rows G) (cols G) dirs) {} =
           Inr ((\<lambda>x. canonical (run_values G k x)) ` set (all_runs dirs G k))"
proof -
  let ?xs = "iteration_space (rows G) (cols G) dirs"
  let ?q = "\<lambda>x. canonical (run_values G k x)"
  have "fold_err (seen_step G (rows G) (cols G) k) ?xs {} =
      Inr (fold (\<lambda>x S. if run_fits G k x then insert (?q x) S else S) ?xs {})"
    by (rule fold_err_pure) (rule seen_step_ok[OF assms])
  also have "fold (\<lambda>x S. if run_fits G k x then insert (?q x) S else S) ?xs {} =
      fold insert (map ?q (filter (run_fits G k) ?xs)) {}"
    by (rule fold_filter_map)
  also have "\<dots> = ?q ` set (all_runs dirs G k)"
    using fold_insert_image[of "\<lambda>x. x" "map ?q (filter (run_fits G k) ?xs)" "{}"]
    by (simp add: set_all_runs_filter)
  finally show ?thesis .
qed

lemma unit_steps_directions: "unit_steps directions"
  by (simp add: unit_steps_def directions_def)

lemma unit_steps_eight_directions: "unit_steps eight_directions"
  by (simp add: unit_steps_def eight_directions_def)

subsection \<open>Validation of the product search\<close>

lemma list_ex_not_rectangular:
  "list_ex (\<lambda>row. length row \<noteq> length (hd G)) G = (\<not> rectangular G)"
  by (auto simp: rectangular_def list_ex_iff list_all_iff)

lemma find_greatest_product_valid:
  assumes "rectangular G" "G \<noteq> []" "1 \<le> k"
  shows "find_greatest_product_of_contiguous_integers G k =
           max_product_scan directions G (rows G) (cols G) k"
  using assms
  by (simp add: find_greatest_product_of_contiguous_integers_def list_ex_not_rectangular
      rows_def cols_def)

lemma find_greatest_product_invalid:
  "k < 1 \<or> G = [] \<or> \<not> rectangular G \<Longrightarrow>
     find_greatest_product_of_contiguous_integers G k = Inl ValueError"
  by (auto simp add: find_greatest_product_of_contiguous_integers_def list_ex_not_rectangular)

lemma find_greatest_product_total:
  assumes "rectangular G" "G \<noteq> []" "1 \<le> k"
  shows "find_greatest_product_of_contiguous_integers G k =
           Inr (if all_runs directions G k = [] then 0 else Max (set (run_products directions G k)))"
  using find_greatest_product_valid[OF assms]
    max_product_scan_correct[OF assms(1) unit_steps_directions]
  by simp

lemma rectangular_shape:
  assumes "map length G' = map length G"
  shows "rectangular G' = rectangular G"
proof -
  have l: "length G' = length G" using assms by (rule map_eq_imp_length_eq)
  show ?thesis
  proof (cases "G = []")
    case True
    then show ?thesis using l by simp
  next
    case False
    then have n: "G' \<noteq> []" using l by auto
    have h: "length (hd G') = length (hd G)"
      using arg_cong[OF assms, of hd] False n by (simp add: hd_map)
    have "list_all (\<lambda>n. n = length (hd G)) (map length G') =
          list_all (\<lambda>n. n = length (hd G)) (map length G)"
      using assms by simp
    then show ?thesis by (simp add: rectangular_def h list_all_iff)
  qed
qed

text \<open>Claim C10: for every run length \<open>k\<close>, the count on the grid with zero rows is 0
  and no error is raised: the column count is taken as 0 and the loops visit no start cell.\<close>
theorem count_unique_empty_grid:
  "count_unique_combinations_of_length_k [] k = Inr 0"
  by (simp add: count_unique_combinations_of_length_k_def iteration_space_def py_range_def)

theorem count_unique_empty_grid_witness:
  "count_unique_combinations_of_length_k [] 3 = Inr 0 \<and>
   count_unique_combinations_of_length_k [] 0 = Inr 0 \<and>
   count_unique_combinations_of_length_k [] (- 2) = Inr 0"
  using count_unique_empty_grid[of 3] count_unique_empty_grid[of 0]
    count_unique_empty_grid[of "- 2"]
  by simp

lemma no_run_fits:
  assumes "rows G < k" "cols G < k"
  shows "all_runs directions G k = []"
proof -
  have "set (all_runs directions G k) = {}"
    using assms by (auto simp: set_all_runs directions_def)
  then show ?thesis by simp
qed

text \<open>Claim C5: on a rectangular grid with at least one row, a run length \<open>k\<close> larger
  than both the row count and the column count lets no run fit, and the product search
  returns the fallback value 0 instead of raising an error.\<close>
theorem find_greatest_product_fallback:
  assumes "rectangular G" "G \<noteq> []" "rows G < k" "cols G < k"
  shows "find_greatest_product_of_contiguous_integers G k = Inr 0"
proof -
  have "1 \<le> k" using assms(2,3) by (cases G) (simp_all add: rows_def)
  then show ?thesis
    using find_greatest_product_total[OF assms(1,2)] no_run_fits[OF assms(3,4)] by simp
qed

theorem find_greatest_product_fallback_witness:
  "rectangular [[1, 2], [3, 4]] \<and> [[1, 2], [3, 4]] \<noteq> ([] :: NumberGrid) \<and>
   rows [[1, 2], [3, 4]] < 3 \<and> cols [[1, 2], [3, 4]] < 3 \<and>
   find_greatest_product_of_contiguous_integers [[1, 2], [3, 4]] 3 = Inr 0"
proof -
  have h: "rectangular [[1, 2], [3, 4]]" "[[1, 2], [3, 4]] \<noteq> ([] :: NumberGrid)"
    "rows [[1, 2], [3, 4]] < 3" "cols [[1, 2], [3, 4]] < 3"
    by (simp_all add: rectangular_def rows_def cols_def)
  show ?thesis using h find_greatest_product_fallback[OF h] by simp
qed

subsection \<open>The canonical identity\<close>

lemma tuple_less_lexorder: "tuple_less a b = (a < b)"
  by (induction a b rule: tuple_less.induct) auto

lemma canonical_lex_min: "canonical seq = lex_min_identity seq"
  by (auto simp: canonical_def py_min_def lex_min_identity_def tuple_less_lexorder min_def)

lemma lex_min_identity_rev: "lex_min_identity (rev seq) = lex_min_identity seq"
  by (simp add: lex_min_identity_def min.commute)

lemma lex_min_identity_eq_iff:
  "(lex_min_identity s = lex_min_identity t) = (s = t \<or> s = rev t)"
proof
  assume "lex_min_identity s = lex_min_identity t"
  then show "s = t \<or> s = rev t"
    by (auto simp: lex_min_identity_def min_def split: if_splits)
next
  assume "s = t \<or> s = rev t"
  then show "lex_min_identity s = lex_min_identity t"
    using lex_min_identity_rev[of t] by auto
qed

subsection \<open>The count on a rectangular grid\<close>

lemma count_unique_unfold:
  "count_unique_combinations_of_length_k G k =
     (case fold_err (seen_step G (rows G) (cols G) k)
             (iteration_space (rows G) (cols G) directions) {} of
        Inl e \<Rightarrow> Inl e
      | Inr seen \<Rightarrow> Inr (card seen))"
  by (cases "G = []")
    (simp_all add: count_unique_combinations_of_length_k_def rows_def cols_def Let_def)

lemma count_unique_rectangular:
  assumes "rectangular G"
  shows "count_unique_combinations_of_length_k G k = Inr (card (run_identities directions G k))"
proof -
  have "(\<lambda>x. canonical (run_values G k x)) ` set (all_runs directions G k) =
      run_identities directions G k"
    by (simp add: run_identities_def canonical_lex_min)
  then show ?thesis
    using seen_scan_correct[OF assms unit_steps_directions, of k]
    by (simp add: count_unique_unfold)
qed

subsection \<open>Runs of length one\<close>

lemma cell_values_rectangular:
  assumes "rectangular G"
  shows "cell_values G = {grid_at G r c | r c. 0 \<le> r \<and> r < rows G \<and> 0 \<le> c \<and> c < cols G}"
proof (intro set_eqI iffI)
  fix v assume "v \<in> cell_values G"
  then obtain row where row: "row \<in> set G" "v \<in> set row"
    by (auto simp: cell_values_def)
  then obtain i where i: "i < length G" "G ! i = row" by (auto simp: in_set_conv_nth)
  from row obtain j where j: "j < length row" "row ! j = v" by (auto simp: in_set_conv_nth)
  have ne: "G \<noteq> []" using i by auto
  have "length row = length (hd G)" using rectangular_nth[OF assms i(1)] i(2) by simp
  then have "int j < cols G" using j ne by (simp add: cols_def)
  moreover have "grid_at G (int i) (int j) = v" using i j by (simp add: grid_at_def)
  moreover have "int i < rows G" using i by (simp add: rows_def)
  ultimately show "v \<in> {grid_at G r c | r c. 0 \<le> r \<and> r < rows G \<and> 0 \<le> c \<and> c < cols G}"
    by (intro CollectI exI[of _ "int i"] exI[of _ "int j"]) simp
next
  fix v assume "v \<in> {grid_at G r c | r c. 0 \<le> r \<and> r < rows G \<and> 0 \<le> c \<and> c < cols G}"
  then obtain r c where rc: "v = grid_at G r c" "0 \<le> r" "r < rows G" "0 \<le> c" "c < cols G"
    by auto
  have r: "nat r < length G" using rc by (simp add: rows_def)
  then have ne: "G \<noteq> []" by auto
  have "nat c < length (G ! nat r)"
    using rectangular_nth[OF assms r] rc ne by (simp add: cols_def)
  then have "v \<in> set (G ! nat r)" using rc(1) by (simp add: grid_at_def)
  moreover have "G ! nat r \<in> set G" using r by simp
  ultimately show "v \<in> cell_values G" by (auto simp: cell_values_def)
qed

lemma run_values_one: "run_values G 1 (r, c, dr, dc) = [grid_at G r c]"
  by simp

lemma set_all_runs_one:
  "set (all_runs directions G 1) =
     {(r, c, dr, dc). 0 \<le> r \<and> r < rows G \<and> 0 \<le> c \<and> c < cols G \<and> (dr, dc) \<in> set directions}"
  by (auto simp: set_all_runs)

lemma single_cell_runs:
  assumes "rectangular G"
  shows "(\<lambda>x. h (run_values G 1 x)) ` set (all_runs directions G 1) = (\<lambda>v. h [v]) ` cell_values G"
  unfolding set_all_runs_one cell_values_rectangular[OF assms]
proof (intro set_eqI iffI)
  fix y
  assume "y \<in> (\<lambda>x. h (run_values G 1 x)) `
    {(r, c, dr, dc). 0 \<le> r \<and> r < rows G \<and> 0 \<le> c \<and> c < cols G \<and> (dr, dc) \<in> set directions}"
  then obtain r c dr dc where "y = h (run_values G 1 (r, c, dr, dc))"
    "0 \<le> r" "r < rows G" "0 \<le> c" "c < cols G"
    by auto
  then show "y \<in> (\<lambda>v. h [v]) ` {grid_at G r c | r c. 0 \<le> r \<and> r < rows G \<and> 0 \<le> c \<and> c < cols G}"
    by (simp only: run_values_one) blast
next
  fix y
  assume "y \<in> (\<lambda>v. h [v]) ` {grid_at G r c | r c. 0 \<le> r \<and> r < rows G \<and> 0 \<le> c \<and> c < cols G}"
  then obtain r c where rc: "y = h [grid_at G r c]" "0 \<le> r" "r < rows G" "0 \<le> c" "c < cols G"
    by auto
  have "(r, c, 0, 1) \<in>
    {(r, c, dr, dc). 0 \<le> r \<and> r < rows G \<and> 0 \<le> c \<and> c < cols G \<and> (dr, dc) \<in> set directions}"
    using rc by (simp add: directions_def)
  moreover have "y = h (run_values G 1 (r, c, 0, 1))"
    using rc(1) by (simp only: run_values_one)
  ultimately show "y \<in> (\<lambda>x. h (run_values G 1 x)) `
    {(r, c, dr, dc). 0 \<le> r \<and> r < rows G \<and> 0 \<le> c \<and> c < cols G \<and> (dr, dc) \<in> set directions}"
    by (rule image_eqI[rotated])
qed

text \<open>Claim C7: on a rectangular grid with at least one row and one column, the product
  search with run length 1 returns the largest cell value of the grid.\<close>
theorem find_greatest_product_length_one:
  assumes "rectangular G" "G \<noteq> []" "hd G \<noteq> []"
  shows "find_greatest_product_of_contiguous_integers G 1 = Inr (Max (cell_values G))"
proof -
  have s: "set (run_products directions G 1) = cell_values G"
    using single_cell_runs[OF assms(1), of prod_list] by (simp add: set_run_products)
  have "hd G \<in> set G" using assms(2) by simp
  then have "cell_values G \<noteq> {}" using assms(3) by (auto simp: cell_values_def)
  then have "all_runs directions G 1 \<noteq> []"
    using s by (auto simp: run_products_def)
  then show ?thesis
    using find_greatest_product_total[OF assms(1,2), of 1] s by simp
qed

theorem find_greatest_product_length_one_witness:
  "rectangular [[3, -7], [5, 2]] \<and> [[3, -7], [5, 2]] \<noteq> ([] :: NumberGrid) \<and>
   hd [[3, -7], [5, 2]] \<noteq> ([] :: int list) \<and>
   find_greatest_product_of_contiguous_integers [[3, -7], [5, 2]] 1 = Inr 5"
proof -
  have h: "rectangular [[3, -7], [5, 2]]" "[[3, -7], [5, 2]] \<noteq> ([] :: NumberGrid)"
    "hd [[3, -7], [5, 2]] \<noteq> ([] :: int list)"
    by (simp_all add: rectangular_def)
  show ?thesis
    using h find_greatest_product_length_one[OF h] by (simp add: cell_values_def)
qed

text \<open>Claim C9: on a rectangular grid the count for run length 1 is the number of
  distinct cell values: a run of one cell is its own identity, the four directions give
  the same run, and the set keeps each value once.\<close>
theorem count_unique_length_one:
  assumes "rectangular G"
  shows "count_unique_combinations_of_length_k G 1 = Inr (card (cell_values G))"
proof -
  have "run_identities directions G 1 = (\<lambda>v. [v]) ` cell_values G"
    using single_cell_runs[OF assms, of lex_min_identity]
    by (simp add: run_identities_def lex_min_identity_def)
  moreover have "card ((\<lambda>v. [v]) ` cell_values G) = card (cell_values G)"
    by (rule card_image) (simp add: inj_on_def)
  ultimately show ?thesis using count_unique_rectangular[OF assms, of 1] by simp
qed

theorem count_unique_length_one_witness:
  "rectangular [[3, 5], [5, 2]] \<and>
   count_unique_combinations_of_length_k [[3, 5], [5, 2]] 1 = Inr 3"
proof -
  have h: "rectangular [[3, 5], [5, 2]]" by (simp add: rectangular_def)
  have "card (cell_values [[3, 5], [5, 2]]) = 3" by (simp add: cell_values_def)
  then show ?thesis using h count_unique_length_one[OF h] by simp
qed

subsection \<open>The count validates nothing\<close>

lemma py_index_error: "py_index xs i = Inl e \<Longrightarrow> e = IndexError"
  by (simp add: py_index_def split: if_splits)

lemma cell_error: "cell G r c = Inl e \<Longrightarrow> e = IndexError"
  by (auto simp: cell_def split: sum.splits dest: py_index_error)

lemma seq_loop_error: "seq_loop G r c dr dc js acc = Inl e \<Longrightarrow> e = IndexError"
  by (induction js arbitrary: acc) (auto split: sum.splits dest: cell_error)

lemma seen_step_error: "seen_step G R C k x S = Inl e \<Longrightarrow> e = IndexError"
  by (cases x) (auto simp: Let_def split: if_splits sum.splits dest: seq_loop_error)

lemma fold_err_error:
  assumes "\<And>x s e. f x s = Inl e \<Longrightarrow> e = IndexError"
  shows "fold_err f xs s = Inl e \<Longrightarrow> e = IndexError"
  using assms by (induction xs arbitrary: s) (auto split: sum.splits)

lemma count_unique_error:
  "count_unique_combinations_of_length_k G k = Inl e \<Longrightarrow> e = IndexError"
proof -
  assume a: "count_unique_combinations_of_length_k G k = Inl e"
  let ?f = "fold_err (seen_step G (rows G) (cols G) k)
    (iteration_space (rows G) (cols G) directions) {}"
  have "?f = Inl e" using a by (cases ?f) (simp_all add: count_unique_unfold)
  moreover have "\<And>x s e. seen_step G (rows G) (cols G) k x s = Inl e \<Longrightarrow> e = IndexError"
    by (rule seen_step_error)
  ultimately show "e = IndexError"
    by (rule fold_err_error[where f = "seen_step G (rows G) (cols G) k", rotated])
qed

lemma seen_step_short:
  assumes "k < 1"
  shows "seen_step G R C k x S = Inr S \<or> seen_step G R C k x S = Inr (insert [] S)"
proof -
  have "py_range k = []" using assms by (simp add: py_range_def)
  then show ?thesis by (cases x) (simp add: Let_def canonical_def py_min_def)
qed

lemma fold_seen_step_short:
  assumes "k < 1"
  shows "\<exists>T. fold_err (seen_step G R C k) xs S = Inr T \<and> (T = S \<or> T = insert [] S)"
proof (induction xs arbitrary: S)
  case Nil
  then show ?case by simp
next
  case (Cons x xs)
  from seen_step_short[OF assms, of G R C x S]
  show ?case
  proof
    assume "seen_step G R C k x S = Inr S"
    then show ?thesis using Cons.IH[of S] by simp
  next
    assume "seen_step G R C k x S = Inr (insert [] S)"
    then show ?thesis using Cons.IH[of "insert [] S"] by auto
  qed
qed

theorem count_unique_invalid_parameter_counterexample:
  "count_unique_combinations_of_length_k [[1], [2, 3]] 1 = Inr 2 \<and>
   count_unique_combinations_of_length_k [[1, 2], [3]] 1 = Inl IndexError \<and>
   count_unique_combinations_of_length_k [[1, 2]] 0 = Inr 1"
  by code_simp

subsection \<open>Reversing a run\<close>

lemma rev_upto: "rev [0..n] = map (\<lambda>i. n - i) [0..n]"
proof (rule nth_equalityI)
  show "length (rev [0..n]) = length (map (\<lambda>i. n - i) [0..n])" by simp
next
  fix i assume "i < length (rev [0..n])"
  then have i: "i < nat (n + 1)" by simp
  then have "rev [0..n] ! i = [0..n] ! (nat (n + 1) - Suc i)"
    by (simp add: rev_nth)
  also have "\<dots> = 0 + int (nat (n + 1) - Suc i)"
    using i by (intro nth_upto) linarith
  also have "\<dots> = n - int i" using i by linarith
  also have "\<dots> = map (\<lambda>i. n - i) [0..n] ! i"
    using i by (simp add: nth_upto)
  finally show "rev [0..n] ! i = map (\<lambda>i. n - i) [0..n] ! i" .
qed

lemma run_values_reverse: "run_values G k (reverse_run k x) = rev (run_values G k x)"
proof -
  obtain r c dr dc where x: "x = (r, c, dr, dc)" by (cases x) auto
  have "rev (run_values G k x) =
      map (\<lambda>i. grid_at G (r + i * dr) (c + i * dc)) (map (\<lambda>i. k - 1 - i) [0..k - 1])"
    by (simp add: x rev_map rev_upto)
  also have "\<dots> = map (\<lambda>i. grid_at G (r + (k - 1) * dr + i * (- dr)) (c + (k - 1) * dc + i * (- dc))) [0..k - 1]"
    by (simp add: comp_def algebra_simps)
  finally show ?thesis by (simp add: x)
qed

lemma reverse_run_eight:
  assumes "x \<in> set (all_runs eight_directions G k)"
  shows "x \<in> set (all_runs directions G k) \<or> reverse_run k x \<in> set (all_runs directions G k)"
proof -
  obtain r c dr dc where x: "x = (r, c, dr, dc)" by (cases x) auto
  show ?thesis
    using assms unfolding x set_all_runs
    by (auto simp: eight_directions_def directions_def)
qed

lemma four_in_eight: "set (all_runs directions G k) \<subseteq> set (all_runs eight_directions G k)"
  unfolding set_all_runs by (auto simp: eight_directions_def directions_def)

lemma eight_to_four:
  assumes "\<And>s. h (rev s) = h s"
  shows "(\<lambda>x. h (run_values G k x)) ` set (all_runs eight_directions G k) =
         (\<lambda>x. h (run_values G k x)) ` set (all_runs directions G k)"
proof (intro set_eqI iffI)
  fix y assume "y \<in> (\<lambda>x. h (run_values G k x)) ` set (all_runs eight_directions G k)"
  then obtain x where x: "x \<in> set (all_runs eight_directions G k)" "y = h (run_values G k x)"
    by auto
  from reverse_run_eight[OF x(1)]
  show "y \<in> (\<lambda>x. h (run_values G k x)) ` set (all_runs directions G k)"
  proof
    assume "x \<in> set (all_runs directions G k)"
    then show ?thesis using x(2) by (rule image_eqI[rotated])
  next
    assume r: "reverse_run k x \<in> set (all_runs directions G k)"
    have "y = h (run_values G k (reverse_run k x))"
      using x(2) assms by (simp add: run_values_reverse)
    then show ?thesis using r by (rule image_eqI)
  qed
next
  fix y assume "y \<in> (\<lambda>x. h (run_values G k x)) ` set (all_runs directions G k)"
  then show "y \<in> (\<lambda>x. h (run_values G k x)) ` set (all_runs eight_directions G k)"
    using four_in_eight[of G k] by auto
qed

lemma run_products_eight:
  "set (run_products eight_directions G k) = set (run_products directions G k)"
  unfolding set_run_products by (rule eight_to_four) (rule prod_list.rev)

lemma some_run_fits:
  assumes "G \<noteq> []" "1 \<le> k" "k \<le> cols G"
  shows "all_runs directions G k \<noteq> []"
proof -
  have "0 < rows G" using assms(1) by (simp add: rows_def)
  then have "(0, 0, 0, 1) \<in> set (all_runs directions G k)"
    using assms(2,3) unfolding set_all_runs by (simp add: directions_def)
  then show ?thesis by auto
qed

text \<open>Claim C1: on a rectangular grid with at least one row and one column, and for
  \<open>1 \<le> k \<le> min rows cols\<close>, the product search returns the maximum of the products of
  all runs of length \<open>k\<close> in the eight directions. Reversing a run reverses its values
  and keeps its product, so the maximum over the four base directions is the same, and
  the traversal of the source run with all eight directions returns the same result.\<close>
theorem find_greatest_product_is_maximum:
  assumes "rectangular G" "G \<noteq> []" "hd G \<noteq> []" "1 \<le> k" "k \<le> min (rows G) (cols G)"
  shows "find_greatest_product_of_contiguous_integers G k =
           Inr (Max (set (run_products eight_directions G k)))
    \<and> find_greatest_product_of_contiguous_integers G k =
           Inr (Max (set (run_products directions G k)))
    \<and> max_product_scan eight_directions G (rows G) (cols G) k =
           find_greatest_product_of_contiguous_integers G k
    \<and> (\<forall>x. run_values G k (reverse_run k x) = rev (run_values G k x)
          \<and> prod_list (run_values G k (reverse_run k x)) = prod_list (run_values G k x))"
proof -
  have ne: "all_runs directions G k \<noteq> []"
    using some_run_fits[OF assms(2,4)] assms(5) by simp
  then have ne8: "all_runs eight_directions G k \<noteq> []"
    using four_in_eight[of G k] by auto
  have four: "find_greatest_product_of_contiguous_integers G k =
      Inr (Max (set (run_products directions G k)))"
    using find_greatest_product_total[OF assms(1,2,4)] ne by simp
  have eight: "max_product_scan eight_directions G (rows G) (cols G) k =
      Inr (Max (set (run_products eight_directions G k)))"
    using max_product_scan_correct[OF assms(1) unit_steps_eight_directions, of k] ne8 by simp
  have rv: "\<forall>x. run_values G k (reverse_run k x) = rev (run_values G k x)
          \<and> prod_list (run_values G k (reverse_run k x)) = prod_list (run_values G k x)"
    by (simp add: run_values_reverse prod_list.rev)
  show ?thesis using four eight rv by (simp add: run_products_eight)
qed

theorem find_greatest_product_is_maximum_witness:
  "rectangular [[1, 2], [3, 4]] \<and> [[1, 2], [3, 4]] \<noteq> ([] :: NumberGrid) \<and>
   hd [[1, 2], [3, 4]] \<noteq> ([] :: int list) \<and> (1 :: int) \<le> 2 \<and>
   2 \<le> min (rows [[1, 2], [3, 4]]) (cols [[1, 2], [3, 4]]) \<and>
   find_greatest_product_of_contiguous_integers [[1, 2], [3, 4]] 2 =
     Inr (Max (set (run_products eight_directions [[1, 2], [3, 4]] 2))) \<and>
   find_greatest_product_of_contiguous_integers [[1, 2], [3, 4]] 2 =
     Inr (Max (set (run_products directions [[1, 2], [3, 4]] 2))) \<and>
   max_product_scan eight_directions [[1, 2], [3, 4]] 2 2 2 = Inr 12"
proof -
  have h: "rectangular [[1, 2], [3, 4]]" "[[1, 2], [3, 4]] \<noteq> ([] :: NumberGrid)"
    "hd [[1, 2], [3, 4]] \<noteq> ([] :: int list)" "(1 :: int) \<le> 2"
    "2 \<le> min (rows [[1, 2], [3, 4]]) (cols [[1, 2], [3, 4]])"
    by (simp_all add: rectangular_def rows_def cols_def)
  note t = find_greatest_product_is_maximum[OF h]
  have v: "find_greatest_product_of_contiguous_integers [[1, 2], [3, 4]] 2 = Inr 12"
    by code_simp
  have rc: "rows [[1, 2], [3, 4]] = 2" "cols [[1, 2], [3, 4]] = 2"
    by (simp_all add: rows_def cols_def)
  have "max_product_scan eight_directions [[1, 2], [3, 4]] 2 2 2 = Inr 12"
    using t[THEN conjunct2, THEN conjunct2, THEN conjunct1] v by (simp only: rc)
  then show ?thesis
    using h t[THEN conjunct1] t[THEN conjunct2, THEN conjunct1] by (intro conjI)
qed

subsection \<open>Reflecting the grid\<close>

lemma rows_reflect_left_right: "rows (reflect_left_right G) = rows G"
  by (simp add: rows_def reflect_left_right_def)

lemma cols_reflect_left_right: "cols (reflect_left_right G) = cols G"
  by (simp add: cols_def reflect_left_right_def hd_map)

lemma rows_reflect_top_bottom: "rows (reflect_top_bottom G) = rows G"
  by (simp add: rows_def reflect_top_bottom_def)

lemma rectangular_mem: "rectangular G \<Longrightarrow> row \<in> set G \<Longrightarrow> length row = length (hd G)"
  unfolding rectangular_def list_all_iff by blast

lemma rectangular_intro: "(\<And>row. row \<in> set G \<Longrightarrow> length row = length (hd G)) \<Longrightarrow> rectangular G"
  unfolding rectangular_def list_all_iff by blast

lemma cols_reflect_top_bottom:
  assumes "rectangular G"
  shows "cols (reflect_top_bottom G) = cols G"
proof (cases "G = []")
  case True
  then show ?thesis by (simp add: reflect_top_bottom_def)
next
  case False
  then have "last G \<in> set G" by simp
  then have "length (last G) = length (hd G)" by (rule rectangular_mem[OF assms])
  then show ?thesis using False by (simp add: cols_def reflect_top_bottom_def hd_rev)
qed

lemma rectangular_reflect_left_right:
  assumes "rectangular G"
  shows "rectangular (reflect_left_right G)"
proof (rule rectangular_intro)
  fix row assume "row \<in> set (reflect_left_right G)"
  then obtain row' where r: "row' \<in> set G" "row = rev row'"
    by (auto simp: reflect_left_right_def)
  then have ne: "G \<noteq> []" by auto
  have "length row = length (hd G)" using rectangular_mem[OF assms r(1)] r(2) by simp
  also have "\<dots> = length (hd (reflect_left_right G))"
    using ne by (simp add: reflect_left_right_def hd_map)
  finally show "length row = length (hd (reflect_left_right G))" .
qed

lemma rectangular_reflect_top_bottom:
  assumes "rectangular G"
  shows "rectangular (reflect_top_bottom G)"
proof (rule rectangular_intro)
  fix row assume "row \<in> set (reflect_top_bottom G)"
  then have r: "row \<in> set G" by (simp add: reflect_top_bottom_def)
  then have ne: "G \<noteq> []" by auto
  then have "last G \<in> set G" by simp
  then have "length (last G) = length (hd G)" by (rule rectangular_mem[OF assms])
  then have "length (hd (reflect_top_bottom G)) = length (hd G)"
    using ne by (simp add: reflect_top_bottom_def hd_rev)
  then show "length row = length (hd (reflect_top_bottom G))"
    using rectangular_mem[OF assms r] by simp
qed

lemma set_all_runs_same_shape:
  assumes "rows G' = rows G" "cols G' = cols G"
  shows "set (all_runs dirs G' k) = set (all_runs dirs G k)"
  by (simp add: set_all_runs assms)

lemma grid_at_reflect_left_right:
  assumes "rectangular G" "0 \<le> r" "r < rows G" "0 \<le> c" "c < cols G"
  shows "grid_at (reflect_left_right G) r c = grid_at G r (cols G - 1 - c)"
proof -
  have r: "nat r < length G" using assms by (simp add: rows_def)
  then have ne: "G \<noteq> []" by auto
  have l: "int (length (G ! nat r)) = cols G"
    using rectangular_nth[OF assms(1) r] ne by (simp add: cols_def)
  then have c: "nat c < length (G ! nat r)" using assms by linarith
  have "grid_at (reflect_left_right G) r c = rev (G ! nat r) ! nat c"
    using r by (simp add: grid_at_def reflect_left_right_def)
  also have "\<dots> = G ! nat r ! (length (G ! nat r) - Suc (nat c))"
    using c by (rule rev_nth)
  also have "length (G ! nat r) - Suc (nat c) = nat (cols G - 1 - c)"
    using l c assms by linarith
  finally show ?thesis by (simp add: grid_at_def)
qed

lemma grid_at_reflect_top_bottom:
  assumes "0 \<le> r" "r < rows G"
  shows "grid_at (reflect_top_bottom G) r c = grid_at G (rows G - 1 - r) c"
proof -
  have r: "nat r < length G" using assms by (simp add: rows_def)
  have "rev G ! nat r = G ! (length G - Suc (nat r))" using r by (rule rev_nth)
  moreover have "length G - Suc (nat r) = nat (rows G - 1 - r)"
    using r assms by (simp add: rows_def)
  ultimately show ?thesis by (simp add: grid_at_def reflect_top_bottom_def)
qed

lemma run_cell_in_grid:
  assumes "(r, c, dr, dc) \<in> set (all_runs eight_directions G k)" "i \<in> set [0..k - 1]"
  shows "0 \<le> r + i * dr \<and> r + i * dr < rows G \<and> 0 \<le> c + i * dc \<and> c + i * dc < cols G"
proof -
  have a: "0 \<le> r" "r < rows G" "0 \<le> c" "c < cols G" "(dr, dc) \<in> set eight_directions"
    "0 \<le> r + (k - 1) * dr" "r + (k - 1) * dr < rows G"
    "0 \<le> c + (k - 1) * dc" "c + (k - 1) * dc < cols G"
    using assms(1) by (simp_all add: set_all_runs)
  have u: "dr \<in> {-1, 0, 1}" "dc \<in> {-1, 0, 1}"
    using unit_steps_eight_directions a(5) by (auto simp: unit_steps_def)
  have i: "0 \<le> i" "i < k" using assms(2) by simp_all
  show ?thesis
    using step_between[OF u(1) a(1,2,6,7) i] step_between[OF u(2) a(3,4,8,9) i] by simp
qed

lemma mirror_left_right_run:
  assumes "x \<in> set (all_runs eight_directions G k)"
  shows "mirror_left_right G x \<in> set (all_runs eight_directions G k)"
    and "mirror_left_right G (mirror_left_right G x) = x"
proof -
  obtain r c dr dc where x: "x = (r, c, dr, dc)" by (cases x) auto
  have a: "0 \<le> r" "r < rows G" "0 \<le> c" "c < cols G" "(dr, dc) \<in> set eight_directions"
    "0 \<le> r + (k - 1) * dr" "r + (k - 1) * dr < rows G"
    "0 \<le> c + (k - 1) * dc" "c + (k - 1) * dc < cols G"
    using assms by (simp_all add: x set_all_runs)
  have d: "(dr, - dc) \<in> set eight_directions"
    using a(5) by (auto simp: eight_directions_def)
  have e: "cols G - 1 - c + (k - 1) * (- dc) = cols G - 1 - (c + (k - 1) * dc)"
    by (simp add: algebra_simps)
  have "0 \<le> cols G - 1 - c + (k - 1) * (- dc)" "cols G - 1 - c + (k - 1) * (- dc) < cols G"
    unfolding e using a(8,9) by linarith+
  then show "mirror_left_right G x \<in> set (all_runs eight_directions G k)"
    using a d by (simp add: x set_all_runs)
  show "mirror_left_right G (mirror_left_right G x) = x" by (simp add: x)
qed

lemma mirror_top_bottom_run:
  assumes "x \<in> set (all_runs eight_directions G k)"
  shows "mirror_top_bottom G x \<in> set (all_runs eight_directions G k)"
    and "mirror_top_bottom G (mirror_top_bottom G x) = x"
proof -
  obtain r c dr dc where x: "x = (r, c, dr, dc)" by (cases x) auto
  have a: "0 \<le> r" "r < rows G" "0 \<le> c" "c < cols G" "(dr, dc) \<in> set eight_directions"
    "0 \<le> r + (k - 1) * dr" "r + (k - 1) * dr < rows G"
    "0 \<le> c + (k - 1) * dc" "c + (k - 1) * dc < cols G"
    using assms by (simp_all add: x set_all_runs)
  have d: "(- dr, dc) \<in> set eight_directions"
    using a(5) by (auto simp: eight_directions_def)
  have e: "rows G - 1 - r + (k - 1) * (- dr) = rows G - 1 - (r + (k - 1) * dr)"
    by (simp add: algebra_simps)
  have "0 \<le> rows G - 1 - r + (k - 1) * (- dr)" "rows G - 1 - r + (k - 1) * (- dr) < rows G"
    unfolding e using a(6,7) by linarith+
  then show "mirror_top_bottom G x \<in> set (all_runs eight_directions G k)"
    using a d by (simp add: x set_all_runs)
  show "mirror_top_bottom G (mirror_top_bottom G x) = x" by (simp add: x)
qed

lemma run_values_reflect_left_right:
  assumes "rectangular G" "x \<in> set (all_runs eight_directions G k)"
  shows "run_values (reflect_left_right G) k x = run_values G k (mirror_left_right G x)"
proof -
  obtain r c dr dc where x: "x = (r, c, dr, dc)" by (cases x) auto
  have "grid_at (reflect_left_right G) (r + i * dr) (c + i * dc) =
      grid_at G (r + i * dr) (cols G - 1 - c + i * (- dc))" if "i \<in> set [0..k - 1]" for i
  proof -
    have "0 \<le> r + i * dr \<and> r + i * dr < rows G \<and> 0 \<le> c + i * dc \<and> c + i * dc < cols G"
      using run_cell_in_grid[OF assms(2)[unfolded x] that] .
    then have "grid_at (reflect_left_right G) (r + i * dr) (c + i * dc) =
      grid_at G (r + i * dr) (cols G - 1 - (c + i * dc))"
      using grid_at_reflect_left_right[OF assms(1)] by blast
    then show ?thesis by (simp add: algebra_simps)
  qed
  then show ?thesis by (simp add: x)
qed

lemma run_values_reflect_top_bottom:
  assumes "x \<in> set (all_runs eight_directions G k)"
  shows "run_values (reflect_top_bottom G) k x = run_values G k (mirror_top_bottom G x)"
proof -
  obtain r c dr dc where x: "x = (r, c, dr, dc)" by (cases x) auto
  have "grid_at (reflect_top_bottom G) (r + i * dr) (c + i * dc) =
      grid_at G (rows G - 1 - r + i * (- dr)) (c + i * dc)" if "i \<in> set [0..k - 1]" for i
  proof -
    have "0 \<le> r + i * dr \<and> r + i * dr < rows G \<and> 0 \<le> c + i * dc \<and> c + i * dc < cols G"
      using run_cell_in_grid[OF assms[unfolded x] that] .
    then have "grid_at (reflect_top_bottom G) (r + i * dr) (c + i * dc) =
      grid_at G (rows G - 1 - (r + i * dr)) (c + i * dc)"
      using grid_at_reflect_top_bottom by blast
    then show ?thesis by (simp add: algebra_simps)
  qed
  then show ?thesis by (simp add: x)
qed

lemma reflected_run_values:
  assumes "rows G' = rows G" "cols G' = cols G"
    and "\<And>x. x \<in> set (all_runs eight_directions G k) \<Longrightarrow> m x \<in> set (all_runs eight_directions G k)"
    and "\<And>x. x \<in> set (all_runs eight_directions G k) \<Longrightarrow> m (m x) = x"
    and "\<And>x. x \<in> set (all_runs eight_directions G k) \<Longrightarrow> run_values G' k x = run_values G k (m x)"
  shows "run_values G' k ` set (all_runs eight_directions G' k) =
         run_values G k ` set (all_runs eight_directions G k)"
  unfolding set_all_runs_same_shape[OF assms(1,2)]
proof (intro set_eqI iffI)
  fix y assume "y \<in> run_values G' k ` set (all_runs eight_directions G k)"
  then obtain x where x: "x \<in> set (all_runs eight_directions G k)" "y = run_values G' k x"
    by auto
  then have "y = run_values G k (m x)" using assms(5) by simp
  then show "y \<in> run_values G k ` set (all_runs eight_directions G k)"
    using assms(3)[OF x(1)] by (rule image_eqI)
next
  fix y assume "y \<in> run_values G k ` set (all_runs eight_directions G k)"
  then obtain x where x: "x \<in> set (all_runs eight_directions G k)" "y = run_values G k x"
    by auto
  have "run_values G' k (m x) = run_values G k (m (m x))"
    using assms(5)[OF assms(3)[OF x(1)]] .
  then have "y = run_values G' k (m x)" using x assms(4) by simp
  then show "y \<in> run_values G' k ` set (all_runs eight_directions G k)"
    using assms(3)[OF x(1)] by (rule image_eqI)
qed

lemma run_identities_eight:
  "run_identities directions G k = lex_min_identity ` run_values G k ` set (all_runs eight_directions G k)"
proof -
  have "run_identities directions G k =
      (\<lambda>x. lex_min_identity (run_values G k x)) ` set (all_runs eight_directions G k)"
    unfolding run_identities_def set_map
    by (rule eight_to_four[symmetric]) (rule lex_min_identity_rev)
  then show ?thesis by (simp add: image_image)
qed

lemma run_identities_reflect_left_right:
  assumes "rectangular G"
  shows "run_identities directions (reflect_left_right G) k = run_identities directions G k"
proof -
  have "run_values (reflect_left_right G) k ` set (all_runs eight_directions (reflect_left_right G) k) =
      run_values G k ` set (all_runs eight_directions G k)"
    by (rule reflected_run_values[where m = "mirror_left_right G"])
      (simp_all add: rows_reflect_left_right cols_reflect_left_right mirror_left_right_run
        run_values_reflect_left_right[OF assms])
  then show ?thesis by (simp add: run_identities_eight)
qed

lemma run_identities_reflect_top_bottom:
  assumes "rectangular G"
  shows "run_identities directions (reflect_top_bottom G) k = run_identities directions G k"
proof -
  have "run_values (reflect_top_bottom G) k ` set (all_runs eight_directions (reflect_top_bottom G) k) =
      run_values G k ` set (all_runs eight_directions G k)"
    by (rule reflected_run_values[where m = "mirror_top_bottom G"])
      (simp_all add: rows_reflect_top_bottom cols_reflect_top_bottom[OF assms]
        mirror_top_bottom_run run_values_reflect_top_bottom)
  then show ?thesis by (simp add: run_identities_eight)
qed

text \<open>Claim C6: on a rectangular grid the count is unchanged when the grid is reflected
  left-right (every row reversed) or top-bottom (the order of the rows reversed): the
  reflected grid has the same set of canonical run identities.\<close>
theorem count_unique_reflection_invariant:
  assumes "rectangular G"
  shows "count_unique_combinations_of_length_k (reflect_left_right G) k =
           count_unique_combinations_of_length_k G k
    \<and> count_unique_combinations_of_length_k (reflect_top_bottom G) k =
           count_unique_combinations_of_length_k G k
    \<and> run_identities directions (reflect_left_right G) k = run_identities directions G k
    \<and> run_identities directions (reflect_top_bottom G) k = run_identities directions G k"
proof -
  note lr = run_identities_reflect_left_right[OF assms, of k]
  note tb = run_identities_reflect_top_bottom[OF assms, of k]
  have "count_unique_combinations_of_length_k (reflect_left_right G) k =
      Inr (card (run_identities directions (reflect_left_right G) k))"
    by (rule count_unique_rectangular[OF rectangular_reflect_left_right[OF assms]])
  then have a: "count_unique_combinations_of_length_k (reflect_left_right G) k =
      count_unique_combinations_of_length_k G k"
    by (simp only: lr count_unique_rectangular[OF assms])
  have "count_unique_combinations_of_length_k (reflect_top_bottom G) k =
      Inr (card (run_identities directions (reflect_top_bottom G) k))"
    by (rule count_unique_rectangular[OF rectangular_reflect_top_bottom[OF assms]])
  then have b: "count_unique_combinations_of_length_k (reflect_top_bottom G) k =
      count_unique_combinations_of_length_k G k"
    by (simp only: tb count_unique_rectangular[OF assms])
  show ?thesis using a b lr tb by (intro conjI)
qed

theorem count_unique_reflection_invariant_witness:
  "rectangular [[1, 2, 1], [3, 4, 5]] \<and>
   count_unique_combinations_of_length_k [[1, 2, 1], [5, 4, 3]] 2 =
     count_unique_combinations_of_length_k [[1, 2, 1], [3, 4, 5]] 2 \<and>
   count_unique_combinations_of_length_k [[3, 4, 5], [1, 2, 1]] 2 =
     count_unique_combinations_of_length_k [[1, 2, 1], [3, 4, 5]] 2"
proof -
  have h: "rectangular [[1, 2, 1], [3, 4, 5]]" by (simp add: rectangular_def)
  note t = count_unique_reflection_invariant[OF h, of 2]
  have a: "reflect_left_right [[1, 2, 1], [3, 4, 5]] = [[1, 2, 1], [5, 4, 3]]"
    by (simp add: reflect_left_right_def)
  have b: "reflect_top_bottom [[1, 2, 1], [3, 4, 5]] = [[3, 4, 5], [1, 2, 1]]"
    by (simp add: reflect_top_bottom_def)
  show ?thesis
    using h t[THEN conjunct1] t[THEN conjunct2, THEN conjunct1] unfolding a b
    by (intro conjI)
qed

subsection \<open>The sample grid\<close>

lemma sample_grid_count: "count_unique_combinations_of_length_k sample_grid 3 = Inr 288"
  by code_simp

lemma sample_grid_product:
  "find_greatest_product_of_contiguous_integers sample_grid 3 = Inr 667755"
  by code_simp

text \<open>Claim C8: on the 10 by 10 sample grid of the driver and run length 3, the count of
  unique runs is 288 and the greatest product is 667755.\<close>
theorem sample_grid_results:
  "count_unique_combinations_of_length_k sample_grid 3 = Inr 288 \<and>
   find_greatest_product_of_contiguous_integers sample_grid 3 = Inr 667755"
  using sample_grid_count sample_grid_product by (rule conjI)

subsection \<open>The log of the product search\<close>

lemma product_loop_logged_result:
  "fst (product_loop_logged G r c dr dc js acc log) = product_loop G r c dr dc js acc"
  by (induction js arbitrary: acc log) (simp_all split: sum.splits)

lemma product_step_logged_result:
  "fst (product_step_logged G R C k x m log) = product_step G R C k x m"
proof -
  obtain r c dr dc where x: "x = (r, c, dr, dc)" by (cases x) auto
  show ?thesis
    using product_loop_logged_result[of G r c dr dc "py_range k" 1 "log @ [Visit r c dr dc]"]
    by (auto simp: x Let_def split: prod.splits sum.splits)
qed

lemma fold_logged_result:
  assumes "\<And>x s log. fst (f' x s log) = f x s"
  shows "fst (fold_logged f' xs s log) = fold_err f xs s"
proof (induction xs arbitrary: s log)
  case Nil
  then show ?case by simp
next
  case (Cons x xs)
  obtain res log' where r: "f' x s log = (res, log')" by (cases "f' x s log") auto
  then have "f x s = res" using assms[of x s log] by simp
  then show ?case using r Cons.IH by (cases res) simp_all
qed

lemma max_product_scan_logged_result:
  "fst (max_product_scan_logged dirs G R C k log) = max_product_scan dirs G R C k"
proof -
  let ?l = "fold_logged (product_step_logged G R C k) (iteration_space R C dirs) None log"
  have "fst ?l = fold_err (product_step G R C k) (iteration_space R C dirs) None"
    by (rule fold_logged_result) (rule product_step_logged_result)
  then show ?thesis
    unfolding max_product_scan_logged_def max_product_scan_def
    by (cases ?l) (auto split: sum.splits option.splits)
qed

lemma find_greatest_product_logged_result:
  "fst (find_greatest_product_logged G k) = find_greatest_product_of_contiguous_integers G k"
  by (simp add: find_greatest_product_logged_def find_greatest_product_of_contiguous_integers_def
      Let_def max_product_scan_logged_result)

lemma find_greatest_product_logged_invalid:
  assumes "find_greatest_product_of_contiguous_integers G k = Inl ValueError"
  shows "find_greatest_product_logged G k = (Inl ValueError, [])"
proof -
  have "k < 1 \<or> G = [] \<or> \<not> rectangular G"
  proof (rule ccontr)
    assume "\<not> (k < 1 \<or> G = [] \<or> \<not> rectangular G)"
    then show False using find_greatest_product_total[of G k] assms by simp
  qed
  then show ?thesis
    by (auto simp: find_greatest_product_logged_def list_ex_not_rectangular)
qed

lemma fold_logged_extends:
  assumes "\<And>x s log. \<exists>evs. snd (f x s log) = log @ evs"
  shows "\<exists>evs. snd (fold_logged f xs s log) = log @ evs"
proof (induction xs arbitrary: s log)
  case Nil
  then show ?case by simp
next
  case (Cons x xs)
  obtain res log' where r: "f x s log = (res, log')" by (cases "f x s log") auto
  obtain evs where e: "log' = log @ evs" using assms[of x s log] r by auto
  show ?case
  proof (cases res)
    case (Inl a)
    then show ?thesis using r e by simp
  next
    case (Inr s')
    obtain evs' where "snd (fold_logged f xs s' log') = log' @ evs'"
      using Cons.IH[of s' log'] by blast
    then show ?thesis using r e Inr by simp
  qed
qed

lemma product_loop_logged_extends:
  "\<exists>evs. snd (product_loop_logged G r c dr dc js acc log) = log @ evs"
proof (induction js arbitrary: acc log)
  case Nil
  then show ?case by simp
next
  case (Cons i js)
  show ?case
  proof (cases "cell G (r + i * dr) (c + i * dc)")
    case (Inl e)
    then show ?thesis by simp
  next
    case (Inr v)
    obtain evs where "snd (product_loop_logged G r c dr dc js (acc * v)
        (log @ [Multiply (r + i * dr) (c + i * dc)])) =
        (log @ [Multiply (r + i * dr) (c + i * dc)]) @ evs"
      using Cons.IH by blast
    then show ?thesis using Inr by simp
  qed
qed

lemma product_step_logged_extends:
  "\<exists>evs. evs \<noteq> [] \<and> snd (product_step_logged G R C k x m log) = log @ evs"
proof -
  obtain r c dr dc where x: "x = (r, c, dr, dc)" by (cases x) auto
  let ?l = "product_loop_logged G r c dr dc (py_range k) 1 (log @ [Visit r c dr dc])"
  obtain evs where e: "snd ?l = (log @ [Visit r c dr dc]) @ evs"
    using product_loop_logged_extends by blast
  show ?thesis
  proof (cases "0 \<le> r + (k - 1) * dr \<and> r + (k - 1) * dr < R \<and>
      0 \<le> c + (k - 1) * dc \<and> c + (k - 1) * dc < C")
    case False
    then have "snd (product_step_logged G R C k x m log) = log @ [Visit r c dr dc]"
      by (auto simp: x)
    then show ?thesis by blast
  next
    case True
    then have "snd (product_step_logged G R C k x m log) = snd ?l"
      by (cases ?l) (auto simp: x split: sum.splits)
    then have "snd (product_step_logged G R C k x m log) = log @ (Visit r c dr dc # evs)"
      using e by simp
    then show ?thesis by blast
  qed
qed

lemma fold_logged_nonempty:
  assumes "\<And>x s log. \<exists>evs. evs \<noteq> [] \<and> snd (f x s log) = log @ evs" "xs \<noteq> []"
  shows "snd (fold_logged f xs s log) \<noteq> []"
proof -
  obtain x xs' where xs: "xs = x # xs'" using assms(2) by (cases xs) auto
  obtain res log' where r: "f x s log = (res, log')" by (cases "f x s log") auto
  obtain evs where e: "evs \<noteq> []" "log' = log @ evs" using assms(1)[of x s log] r by auto
  have ext: "\<And>x s log. \<exists>evs. snd (f x s log) = log @ evs" using assms(1) by blast
  show ?thesis
  proof (cases res)
    case (Inl a)
    then show ?thesis using r e by (simp add: xs)
  next
    case (Inr s')
    obtain evs' where "snd (fold_logged f xs' s' log') = log' @ evs'"
      using fold_logged_extends[of f xs' s' log', OF ext] by blast
    then show ?thesis using r e Inr by (simp add: xs)
  qed
qed

lemma find_greatest_product_logged_valid:
  assumes "find_greatest_product_of_contiguous_integers G k \<noteq> Inl ValueError"
  shows "(snd (find_greatest_product_logged G k) = []) = (hd G = [])"
proof -
  have v: "\<not> k < 1" "G \<noteq> []" "rectangular G"
    using assms find_greatest_product_invalid[of k G] by auto
  let ?xs = "iteration_space (rows G) (cols G) directions"
  let ?f = "fold_logged (product_step_logged G (rows G) (cols G) k) ?xs None []"
  have l: "snd (find_greatest_product_logged G k) = snd ?f"
    using v
    by (cases ?f)
      (auto simp: find_greatest_product_logged_def list_ex_not_rectangular rows_def cols_def
        max_product_scan_logged_def split: sum.splits option.splits)
  show ?thesis
  proof (cases "hd G = []")
    case True
    then have "cols G = 0" using v by (simp add: cols_def)
    then have "?xs = []" by (simp add: iteration_space_def py_range_def)
    then show ?thesis using l True by simp
  next
    case False
    then have "(0, 0, 0, 1) \<in> set ?xs"
      using v by (simp add: set_iteration_space rows_def cols_def directions_def)
    then have "?xs \<noteq> []" by auto
    then have "snd ?f \<noteq> []"
      by (rule fold_logged_nonempty[OF product_step_logged_extends])
    then show ?thesis using l False by simp
  qed
qed

text \<open>Claim C3: the product search raises ValueError (the specification's
  InvalidParameter) exactly when \<open>k < 1\<close>, or the grid has no row, or some row's length
  differs from the first row's; no other error is ever raised, so a valid input always
  yields a product. The logged search returns what the search returns, and whenever
  ValueError is raised its log is empty: no start cell was visited and no cell was
  multiplied, the error came before the traversal. On a valid input the log is empty
  only when the rows have no cell. The error depends on the row lengths only.\<close>
theorem find_greatest_product_invalid_parameter:
  "(find_greatest_product_of_contiguous_integers G k = Inl ValueError) =
     (k < 1 \<or> G = [] \<or> (\<exists>row \<in> set G. length row \<noteq> length (hd G)))
   \<and> find_greatest_product_of_contiguous_integers G k \<noteq> Inl IndexError
   \<and> fst (find_greatest_product_logged G k) = find_greatest_product_of_contiguous_integers G k
   \<and> (find_greatest_product_of_contiguous_integers G k = Inl ValueError \<longrightarrow>
        snd (find_greatest_product_logged G k) = [])
   \<and> (find_greatest_product_of_contiguous_integers G k \<noteq> Inl ValueError \<longrightarrow>
        (snd (find_greatest_product_logged G k) = []) = (hd G = []))
   \<and> (find_greatest_product_of_contiguous_integers G k = Inl ValueError \<longrightarrow>
        (\<forall>G'. map length G' = map length G \<longrightarrow>
           find_greatest_product_of_contiguous_integers G' k = Inl ValueError))"
proof -
  let ?bad = "k < 1 \<or> G = [] \<or> \<not> rectangular G"
  have r: "(\<exists>row \<in> set G. length row \<noteq> length (hd G)) = (\<not> rectangular G)"
    by (auto simp: rectangular_def list_all_iff)
  have good: "\<exists>v. find_greatest_product_of_contiguous_integers G k = Inr v" if "\<not> ?bad"
    using that find_greatest_product_total[of G k] by auto
  have bad: "find_greatest_product_of_contiguous_integers G k = Inl ValueError" if "?bad"
    using that by (rule find_greatest_product_invalid)
  have iff: "(find_greatest_product_of_contiguous_integers G k = Inl ValueError) = ?bad"
    using good bad by (cases "?bad") auto
  have noidx: "find_greatest_product_of_contiguous_integers G k \<noteq> Inl IndexError"
    using good bad by (cases "?bad") auto
  have shape: "find_greatest_product_of_contiguous_integers G' k = Inl ValueError"
    if "find_greatest_product_of_contiguous_integers G k = Inl ValueError"
      and "map length G' = map length G" for G'
  proof -
    have "?bad" using that(1) iff by simp
    moreover have "(G' = []) = (G = [])"
      using map_eq_imp_length_eq[OF that(2)] by auto
    ultimately have "k < 1 \<or> G' = [] \<or> \<not> rectangular G'"
      using rectangular_shape[OF that(2)] by auto
    then show ?thesis by (rule find_greatest_product_invalid)
  qed
  have nolog: "snd (find_greatest_product_logged G k) = []"
    if "find_greatest_product_of_contiguous_integers G k = Inl ValueError"
    using find_greatest_product_logged_invalid[OF that] by simp
  show ?thesis
    using iff noidx shape nolog find_greatest_product_logged_result[of G k]
      find_greatest_product_logged_valid[of G k]
    by (simp add: r)
qed

theorem find_greatest_product_invalid_parameter_witness:
  "find_greatest_product_logged [[1, 2], [3, 4]] 0 = (Inl ValueError, []) \<and>
   find_greatest_product_logged [] 2 = (Inl ValueError, []) \<and>
   find_greatest_product_logged [[1, 2], [3]] 2 = (Inl ValueError, []) \<and>
   find_greatest_product_of_contiguous_integers [[5, 6], [7]] 2 = Inl ValueError \<and>
   find_greatest_product_logged [[1, 2]] 2 =
     (Inr 2, [Visit 0 0 0 1, Multiply 0 0, Multiply 0 1, Visit 0 0 1 0, Visit 0 0 1 1,
              Visit 0 0 1 (- 1), Visit 0 1 0 1, Visit 0 1 1 0, Visit 0 1 1 1,
              Visit 0 1 1 (- 1)]) \<and>
   find_greatest_product_of_contiguous_integers [[1, 2]] 2 = Inr 2"
proof -
  note t = find_greatest_product_invalid_parameter
  have a: "find_greatest_product_of_contiguous_integers [[1, 2], [3, 4]] 0 = Inl ValueError"
    using t[of "[[1, 2], [3, 4]]" 0, THEN conjunct1] by simp
  have b: "find_greatest_product_of_contiguous_integers [] 2 = Inl ValueError"
    using t[of "[]" 2, THEN conjunct1] by simp
  have c: "find_greatest_product_of_contiguous_integers [[1, 2], [3]] 2 = Inl ValueError"
    using t[of "[[1, 2], [3]]" 2, THEN conjunct1] by simp
  have d: "find_greatest_product_of_contiguous_integers [[5, 6], [7]] 2 = Inl ValueError"
    using t[of "[[1, 2], [3]]" 2] c by simp
  have la: "find_greatest_product_logged [[1, 2], [3, 4]] 0 = (Inl ValueError, [])"
    using t[of "[[1, 2], [3, 4]]" 0] a by (simp add: prod_eq_iff)
  have lb: "find_greatest_product_logged [] 2 = (Inl ValueError, [])"
    using t[of "[]" 2] b by (simp add: prod_eq_iff)
  have lc: "find_greatest_product_logged [[1, 2], [3]] 2 = (Inl ValueError, [])"
    using t[of "[[1, 2], [3]]" 2] c by (simp add: prod_eq_iff)
  have e: "find_greatest_product_logged [[1, 2]] 2 =
     (Inr 2, [Visit 0 0 0 1, Multiply 0 0, Multiply 0 1, Visit 0 0 1 0, Visit 0 0 1 1,
              Visit 0 0 1 (- 1), Visit 0 1 0 1, Visit 0 1 1 0, Visit 0 1 1 1,
              Visit 0 1 1 (- 1)])"
    by code_simp
  have f: "find_greatest_product_of_contiguous_integers [[1, 2]] 2 = Inr 2"
    using t[of "[[1, 2]]" 2, THEN conjunct2, THEN conjunct2, THEN conjunct1] e by simp
  show ?thesis using la lb lc d e f by (intro conjI)
qed

subsection \<open>The count on any grid\<close>

lemma cell_in_rows:
  assumes "0 \<le> rr" "rr < rows G" "0 \<le> cc"
  shows "cell G rr cc =
    (if cc < int (length (G ! nat rr)) then Inr (grid_at G rr cc) else Inl IndexError)"
  using assms by (simp add: cell_def py_index_def rows_def grid_at_def)

lemma seq_loop_Inr_cells:
  "seq_loop G r c dr dc js acc = Inr s \<Longrightarrow> i \<in> set js \<Longrightarrow>
     \<exists>v. cell G (r + i * dr) (c + i * dc) = Inr v"
  by (induction js arbitrary: acc) (auto split: sum.splits)

lemma fold_err_fails:
  assumes "x \<in> set xs" "\<And>s. \<exists>e. f x s = Inl e"
  shows "\<exists>e. fold_err f xs s = Inl e"
  using assms(1)
proof (induction xs arbitrary: s)
  case Nil
  then show ?case by simp
next
  case (Cons y ys)
  show ?case
  proof (cases "f y s")
    case (Inl e)
    then show ?thesis by simp
  next
    case (Inr s')
    then have "x \<noteq> y" using assms(2)[of s] by auto
    then have "x \<in> set ys" using Cons.prems by simp
    then show ?thesis using Cons.IH[of s'] Inr by simp
  qed
qed

lemma directions_literal: "directions = [(0, 1), (1, 0), (1, 1), (1, -1)]"
  by (simp add: directions_def)

lemma seen_step_any_grid:
  assumes "x \<in> set (iteration_space (rows G) (cols G) directions)"
  shows "seen_step G (rows G) (cols G) k x S =
    (if \<not> run_fits G k x then Inr S
     else if run_overruns G k x then Inl IndexError
     else Inr (insert (canonical (run_values G k x)) S))"
proof -
  obtain r c dr dc where x: "x = (r, c, dr, dc)" by (cases x) auto
  show ?thesis
  proof (cases "run_fits G k x")
    case False
    then show ?thesis by (auto simp: x)
  next
    case True
    then have "x \<in> set (all_runs directions G k)"
      using assms by (simp add: set_all_runs_filter)
    then have run: "(r, c, dr, dc) \<in> set (all_runs eight_directions G k)"
      using four_in_eight[of G k] by (auto simp: x)
    have cells: "cell G (r + i * dr) (c + i * dc) =
        (if c + i * dc < int (length (G ! nat (r + i * dr)))
         then Inr (grid_at G (r + i * dr) (c + i * dc)) else Inl IndexError)"
      if "i \<in> set [0..k - 1]" for i
      using run_cell_in_grid[OF run that] by (intro cell_in_rows) simp_all
    let ?s = "seq_loop G r c dr dc (py_range k) []"
    have step: "seen_step G (rows G) (cols G) k x S =
        (case ?s of Inl e \<Rightarrow> Inl e | Inr seq \<Rightarrow> Inr (insert (canonical seq) S))"
      using True by (simp add: x)
    show ?thesis
    proof (cases "run_overruns G k x")
      case False
      have no: "\<not> int (length (G ! nat (r + i * dr))) \<le> c + i * dc"
        if "i \<in> set [0..k - 1]" for i
        using False that unfolding x run_overruns.simps list_ex_iff by blast
      have "cell G (r + i * dr) (c + i * dc) = Inr (grid_at G (r + i * dr) (c + i * dc))"
        if "i \<in> set (py_range k)" for i
        using that cells[of i] no[of i] by (simp add: py_range_upto)
      then have "?s = Inr ([] @ map (\<lambda>i. grid_at G (r + i * dr) (c + i * dc)) (py_range k))"
        by (rule seq_loop_ok)
      then show ?thesis using True False step by (simp add: x py_range_upto)
    next
      case over: True
      then obtain i where i: "i \<in> set [0..k - 1]"
        "int (length (G ! nat (r + i * dr))) \<le> c + i * dc"
        by (auto simp: x list_ex_iff)
      then have bad: "cell G (r + i * dr) (c + i * dc) = Inl IndexError"
        using cells[of i] by simp
      have "?s = Inl IndexError"
      proof (cases ?s)
        case (Inl e)
        then show ?thesis using seq_loop_error[of G r c dr dc "py_range k" "[]" e] by simp
      next
        case (Inr seq)
        then show ?thesis
          using seq_loop_Inr_cells[of G r c dr dc "py_range k" "[]" seq i] i(1) bad
          by (simp add: py_range_upto)
      qed
      then show ?thesis using True over step by simp
    qed
  qed
qed

lemma count_unique_overrun:
  assumes "reads_past_row_end G k"
  shows "count_unique_combinations_of_length_k G k = Inl IndexError"
proof -
  obtain x where x: "x \<in> set (all_runs directions G k)" "run_overruns G k x"
    using assms by (auto simp: reads_past_row_end_def list_ex_iff directions_literal)
  then have m: "x \<in> set (iteration_space (rows G) (cols G) directions)" "run_fits G k x"
    by (simp_all add: set_all_runs_filter)
  have "\<exists>e. seen_step G (rows G) (cols G) k x S = Inl e" for S
    using seen_step_any_grid[OF m(1), of k S] m(2) x(2) by simp
  then obtain e where e: "fold_err (seen_step G (rows G) (cols G) k)
      (iteration_space (rows G) (cols G) directions) {} = Inl e"
    using fold_err_fails[OF m(1), of "seen_step G (rows G) (cols G) k" "{}"] by blast
  then have "count_unique_combinations_of_length_k G k = Inl e"
    by (simp add: count_unique_unfold)
  then show ?thesis using count_unique_error by blast
qed

lemma count_unique_no_overrun:
  assumes "\<not> reads_past_row_end G k"
  shows "count_unique_combinations_of_length_k G k =
    Inr (card (run_identities [(0, 1), (1, 0), (1, 1), (1, -1)] G k))"
proof -
  let ?xs = "iteration_space (rows G) (cols G) directions"
  let ?q = "\<lambda>x. canonical (run_values G k x)"
  have ok: "seen_step G (rows G) (cols G) k x S =
      Inr (if run_fits G k x then insert (?q x) S else S)" if "x \<in> set ?xs" for x S
  proof -
    have "\<not> run_overruns G k x" if "run_fits G k x"
    proof
      assume "run_overruns G k x"
      moreover have "x \<in> set (all_runs directions G k)"
        using \<open>x \<in> set ?xs\<close> that by (simp add: set_all_runs_filter)
      ultimately have "reads_past_row_end G k"
        unfolding reads_past_row_end_def list_ex_iff directions_literal[symmetric] by blast
      then show False using assms by simp
    qed
    then show ?thesis using seen_step_any_grid[OF \<open>x \<in> set ?xs\<close>, of k S] by auto
  qed
  have "fold_err (seen_step G (rows G) (cols G) k) ?xs {} =
      Inr (fold (\<lambda>x S. if run_fits G k x then insert (?q x) S else S) ?xs {})"
    by (rule fold_err_pure) (rule ok)
  also have "fold (\<lambda>x S. if run_fits G k x then insert (?q x) S else S) ?xs {} =
      fold insert (map ?q (filter (run_fits G k) ?xs)) {}"
    by (rule fold_filter_map)
  also have "\<dots> = ?q ` set (all_runs directions G k)"
    using fold_insert_image[of "\<lambda>x. x" "map ?q (filter (run_fits G k) ?xs)" "{}"]
    by (simp add: set_all_runs_filter)
  also have "\<dots> = run_identities directions G k"
    by (simp add: run_identities_def canonical_lex_min)
  finally show ?thesis
    by (simp add: count_unique_unfold directions_literal)
qed

lemma overrun_short_row:
  assumes "reads_past_row_end G k"
  shows "\<exists>row \<in> set G. length row < length (hd G)"
proof -
  obtain x where x: "x \<in> set (all_runs directions G k)" "run_overruns G k x"
    using assms by (auto simp: reads_past_row_end_def list_ex_iff directions_literal)
  obtain r c dr dc where xx: "x = (r, c, dr, dc)" by (cases x) auto
  obtain i where i: "i \<in> set [0..k - 1]"
    "int (length (G ! nat (r + i * dr))) \<le> c + i * dc"
    using x(2) by (auto simp: xx list_ex_iff)
  have run: "(r, c, dr, dc) \<in> set (all_runs eight_directions G k)"
    using x(1) four_in_eight[of G k] by (auto simp: xx)
  have b: "0 \<le> r + i * dr" "r + i * dr < rows G" "c + i * dc < cols G"
    using run_cell_in_grid[OF run i(1)] by simp_all
  then have n: "nat (r + i * dr) < length G" by (simp add: rows_def)
  then have "G \<noteq> []" by auto
  then have "length (G ! nat (r + i * dr)) < length (hd G)"
    using i(2) b(3) by (simp add: cols_def)
  moreover have "G ! nat (r + i * dr) \<in> set G" using n by simp
  ultimately show ?thesis by blast
qed

text \<open>Claim C4, as amended: the count does not share the input contract of the product
  search. It checks nothing and never raises ValueError (the specification's
  InvalidParameter), whatever the grid and \<open>k\<close>. It raises IndexError exactly when
  some run in a base direction that passes the bounds check reads a cell past the end of
  its row, which needs a row shorter than the first one; otherwise it returns the number
  of canonical identities of these runs. For \<open>k < 1\<close> it reads no cell and returns 0
  or 1.\<close>
theorem count_unique_never_invalid_parameter:
  "count_unique_combinations_of_length_k G k \<noteq> Inl ValueError
   \<and> (count_unique_combinations_of_length_k G k = Inl IndexError) = reads_past_row_end G k
   \<and> (reads_past_row_end G k \<longrightarrow> (\<exists>row \<in> set G. length row < length (hd G)))
   \<and> (\<not> reads_past_row_end G k \<longrightarrow>
        count_unique_combinations_of_length_k G k =
          Inr (card (run_identities [(0, 1), (1, 0), (1, 1), (1, -1)] G k)))
   \<and> (k < 1 \<longrightarrow> count_unique_combinations_of_length_k G k = Inr 0
                 \<or> count_unique_combinations_of_length_k G k = Inr 1)"
proof -
  have a: "count_unique_combinations_of_length_k G k \<noteq> Inl ValueError"
    using count_unique_error[of G k ValueError] by auto
  have b: "(count_unique_combinations_of_length_k G k = Inl IndexError) = reads_past_row_end G k"
  proof
    assume e: "count_unique_combinations_of_length_k G k = Inl IndexError"
    show "reads_past_row_end G k"
    proof (rule ccontr)
      assume "\<not> reads_past_row_end G k"
      then have "count_unique_combinations_of_length_k G k =
          Inr (card (run_identities [(0, 1), (1, 0), (1, 1), (1, -1)] G k))"
        by (rule count_unique_no_overrun)
      then show False using e by simp
    qed
  next
    assume "reads_past_row_end G k"
    then show "count_unique_combinations_of_length_k G k = Inl IndexError"
      by (rule count_unique_overrun)
  qed
  have c: "count_unique_combinations_of_length_k G k = Inr 0
                 \<or> count_unique_combinations_of_length_k G k = Inr 1" if lt: "k < 1"
  proof -
    obtain T where "fold_err (seen_step G (rows G) (cols G) k)
        (iteration_space (rows G) (cols G) directions) {} = Inr T" "T = {} \<or> T = {[]}"
      using fold_seen_step_short[OF lt, of G "rows G" "cols G" _ "{}"] by blast
    then show ?thesis by (auto simp: count_unique_unfold)
  qed
  show ?thesis
    using a b c overrun_short_row[of G k] count_unique_no_overrun[of G k] by blast
qed

theorem count_unique_never_invalid_parameter_witness:
  "reads_past_row_end [[1, 2], [3]] 1 \<and>
   count_unique_combinations_of_length_k [[1, 2], [3]] 1 = Inl IndexError \<and>
   \<not> reads_past_row_end [[1], [2, 3]] 1 \<and>
   count_unique_combinations_of_length_k [[1], [2, 3]] 1 = Inr 2 \<and>
   (0 :: int) < 1 \<and> count_unique_combinations_of_length_k [[1, 2], [3]] 0 \<noteq> Inl ValueError \<and>
   (count_unique_combinations_of_length_k [[1, 2], [3]] 0 = Inr 0
     \<or> count_unique_combinations_of_length_k [[1, 2], [3]] 0 = Inr 1)"
proof -
  note t = count_unique_never_invalid_parameter
  have o: "reads_past_row_end [[1, 2], [3]] 1" by code_simp
  have a: "count_unique_combinations_of_length_k [[1, 2], [3]] 1 = Inl IndexError"
    using t[of "[[1, 2], [3]]" 1, THEN conjunct2, THEN conjunct1] o by simp
  have n: "\<not> reads_past_row_end [[1], [2, 3]] 1" by code_simp
  have i: "card (run_identities [(0, 1), (1, 0), (1, 1), (1, -1)] [[1], [2, 3]] 1) = 2"
    by code_simp
  have b: "count_unique_combinations_of_length_k [[1], [2, 3]] 1 = Inr 2"
    using t[of "[[1], [2, 3]]" 1] n i by simp
  have c: "count_unique_combinations_of_length_k [[1, 2], [3]] 0 \<noteq> Inl ValueError"
    using t[of "[[1, 2], [3]]" 0] by (rule conjunct1)
  have d: "count_unique_combinations_of_length_k [[1, 2], [3]] 0 = Inr 0
     \<or> count_unique_combinations_of_length_k [[1, 2], [3]] 0 = Inr 1"
    using t[of "[[1, 2], [3]]" 0] by simp
  have e: "(0 :: int) < 1" by simp
  show ?thesis using o a n b e c d by (intro conjI)
qed

text \<open>Claim C2: on a rectangular grid the count is the number of distinct canonical
  identities of the runs of length \<open>k\<close> that start at any cell, go in one of exactly
  the four base directions right \<open>(0, 1)\<close>, down \<open>(1, 0)\<close>, down-right \<open>(1, 1)\<close>
  and down-left \<open>(1, -1)\<close>, and end inside the grid. The identity computed by the code
  (Python's \<^verbatim>\<open>min\<close> of the tuple and its reversal) is the lexicographic minimum of
  the value sequence and its reversal, and two sequences have the same identity exactly
  when they are equal or one is the reversal of the other.\<close>
theorem count_unique_is_number_of_identities:
  assumes "rectangular G"
  shows "count_unique_combinations_of_length_k G k =
           Inr (card (run_identities [(0, 1), (1, 0), (1, 1), (1, -1)] G k))
    \<and> (\<forall>seq. canonical seq = lex_min_identity seq)
    \<and> (\<forall>s t. (lex_min_identity s = lex_min_identity t) = (s = t \<or> s = rev t))"
proof -
  have "count_unique_combinations_of_length_k G k =
      Inr (card (run_identities [(0, 1), (1, 0), (1, 1), (1, -1)] G k))"
    using count_unique_rectangular[OF assms, of k] by (simp only: directions_literal)
  then show ?thesis
    using canonical_lex_min lex_min_identity_eq_iff by blast
qed

theorem count_unique_is_number_of_identities_witness:
  "rectangular [[1, 2], [3, 4]] \<and>
   count_unique_combinations_of_length_k [[1, 2], [3, 4]] 2 = Inr 6 \<and>
   run_identities [(0, 1), (1, 0), (1, 1), (1, -1)] [[1, 2], [3, 4]] 2 =
     {[1, 2], [1, 3], [1, 4], [2, 4], [2, 3], [3, 4]} \<and>
   rectangular [[1, 2, 1], [3, 4, 3]] \<and>
   count_unique_combinations_of_length_k [[1, 2, 1], [3, 4, 3]] 2 = Inr 6 \<and>
   canonical [2, 1] = lex_min_identity [2, 1] \<and>
   lex_min_identity [2, 1] = lex_min_identity [1, 2]"
proof -
  have h: "rectangular [[1, 2], [3, 4]]" by (simp add: rectangular_def)
  note t = count_unique_is_number_of_identities[OF h, of 2]
  have i: "run_identities [(0, 1), (1, 0), (1, 1), (1, -1)] [[1, 2], [3, 4]] 2 =
     {[1, 2], [1, 3], [1, 4], [2, 4], [2, 3], [3, 4]}"
    by code_simp
  have n: "card {[1, 2], [1, 3], [1, 4], [2, 4], [2, 3], [3, 4 :: int]} = 6" by simp
  have a: "count_unique_combinations_of_length_k [[1, 2], [3, 4]] 2 = Inr 6"
    using t[THEN conjunct1] by (simp only: i n)
  have h2: "rectangular [[1, 2, 1], [3, 4, 3]]" by (simp add: rectangular_def)
  have i2: "card (run_identities [(0, 1), (1, 0), (1, 1), (1, -1)] [[1, 2, 1], [3, 4, 3]] 2) = 6"
    by code_simp
  have a2: "count_unique_combinations_of_length_k [[1, 2, 1], [3, 4, 3]] 2 = Inr 6"
    using count_unique_is_number_of_identities[OF h2, of 2, THEN conjunct1] by (simp only: i2)
  have b: "canonical [2, 1] = lex_min_identity [2, 1]"
    using t[THEN conjunct2, THEN conjunct1] by (rule spec)
  have "(lex_min_identity [2, 1] = lex_min_identity [1, 2]) =
      ([2, 1] = [1, 2 :: int] \<or> [2, 1] = rev [1, 2 :: int])"
    using t[THEN conjunct2, THEN conjunct2, THEN spec, THEN spec] .
  then have c: "lex_min_identity [2, 1] = lex_min_identity [1, 2]" by simp
  show ?thesis using h a i h2 a2 b c by (intro conjI)
qed

end
